theory Spec2Isabelle
  imports Main "HOL-Library.Multiset"
begin

unbundle bit_operations_syntax

section \<open>Addresses and networks, as the source's \<open>ipaddress\<close> calls see them\<close>

text \<open>
  \<^verbatim>\<open>ping-sweep.py\<close> never inspects the text of an address itself: it hands the text to
  \<^verbatim>\<open>ipaddress.ip_network(subnet, strict=False)\<close> and \<^verbatim>\<open>ipaddress.ip_address(text)\<close> and then
  works with the objects that come back (\<^verbatim>\<open>hosts()\<close>, \<^verbatim>\<open><=\<close>). An address object is its
  version, its integer and, for IPv6, an optional zone; Python's unbounded non-negative
  integers are \<^typ>\<open>nat\<close> here.
\<close>

datatype ip_version = V4 | V6

record ip_address =
  version :: ip_version
  ip_int :: nat
  scope_id :: "string option"

record ip_network =
  network_address :: ip_address
  prefixlen :: nat

text \<open>The one exception a comparison of addresses raises (across versions). A
  \<^verbatim>\<open>ValueError(msg)\<close> of the parsers is the value \<open>Inl msg\<close>.\<close>

datatype type_error = TypeError

text \<open>\<^verbatim>\<open>_max_prefixlen\<close> and \<^verbatim>\<open>_ALL_ONES\<close> of the two address families.\<close>

fun max_prefixlen :: "ip_version \<Rightarrow> nat" where
  "max_prefixlen V4 = 32"
| "max_prefixlen V6 = 128"

definition ALL_ONES :: "ip_version \<Rightarrow> nat" where
  "ALL_ONES v = 2 ^ max_prefixlen v - 1"

text \<open>An address object built from an integer (\<^verbatim>\<open>self._address_class(x)\<close>): no zone.\<close>

definition address_class :: "ip_version \<Rightarrow> nat \<Rightarrow> ip_address" where
  "address_class v x = \<lparr>version = v, ip_int = x, scope_id = None\<rparr>"

text \<open>
  The text-level part of the library is a parameter of the model: \<open>split_network\<close> stands
  for \<^verbatim>\<open>_split_addr_prefix\<close>, the address constructor and \<^verbatim>\<open>_make_netmask\<close> (it gives the
  address written before the slash and the prefix length), \<open>parse_address\<close> for
  \<^verbatim>\<open>ipaddress.ip_address\<close>. \<open>Inl msg\<close> is the \<^verbatim>\<open>ValueError(msg)\<close> the library raises on
  text it does not accept. Where a statement needs it, it says that the integer of a parsed
  address fits its family and that the prefix length is at most \<^verbatim>\<open>_max_prefixlen\<close>, as holds
  of everything the library returns.
\<close>

record ipaddress_lib =
  split_network :: "string \<Rightarrow> string + (ip_address \<times> nat)"
  parse_address :: "string \<Rightarrow> string + ip_address"

text \<open>\<^verbatim>\<open>_ip_int_from_prefix\<close>: \<^verbatim>\<open>cls._ALL_ONES ^ (cls._ALL_ONES >> prefixlen)\<close>.\<close>

definition ip_int_from_prefix :: "ip_version \<Rightarrow> nat \<Rightarrow> nat" where
  "ip_int_from_prefix v p = ALL_ONES v XOR drop_bit p (ALL_ONES v)"

text \<open>
  The network constructor with \<^verbatim>\<open>strict=False\<close>: host bits that are set are masked away
  (the masked address is rebuilt from its integer, so it carries no zone).
\<close>

definition make_network :: "ip_address \<Rightarrow> nat \<Rightarrow> ip_network" where
  "make_network addr p =
     (let netmask = ip_int_from_prefix (version addr) p;
          packed = ip_int addr
      in \<lparr>network_address =
            (if packed AND netmask \<noteq> packed
             then address_class (version addr) (packed AND netmask)
             else addr),
          prefixlen = p\<rparr>)"

definition ip_network :: "ipaddress_lib \<Rightarrow> string \<Rightarrow> string + ip_network" where
  "ip_network lib subnet =
     (case split_network lib subnet of
        Inl msg \<Rightarrow> Inl msg
      | Inr (addr, p) \<Rightarrow> Inr (make_network addr p))"

definition net_version :: "ip_network \<Rightarrow> ip_version" where
  "net_version net = version (network_address net)"

text \<open>\<^verbatim>\<open>hostmask\<close> is \<^verbatim>\<open>netmask ^ _ALL_ONES\<close>, \<^verbatim>\<open>broadcast_address\<close> is
  \<^verbatim>\<open>network_address | hostmask\<close>, \<^verbatim>\<open>num_addresses\<close> is \<^verbatim>\<open>broadcast - network + 1\<close>.\<close>

definition hostmask :: "ip_network \<Rightarrow> nat" where
  "hostmask net = ip_int_from_prefix (net_version net) (prefixlen net) XOR ALL_ONES (net_version net)"

definition broadcast_address :: "ip_network \<Rightarrow> nat" where
  "broadcast_address net = ip_int (network_address net) OR hostmask net"

definition num_addresses :: "ip_network \<Rightarrow> nat" where
  "num_addresses net = broadcast_address net - ip_int (network_address net) + 1"

text \<open>
  \<^verbatim>\<open>hosts()\<close>. The constructor replaces the method on a network of prefix length
  \<^verbatim>\<open>_max_prefixlen - 1\<close> (by \<^verbatim>\<open>__iter__\<close>: every address) and \<^verbatim>\<open>_max_prefixlen\<close> (the one
  address, as written). Otherwise the IPv4 method runs over
  \<^verbatim>\<open>range(network + 1, broadcast)\<close> and the IPv6 method over
  \<^verbatim>\<open>range(network + 1, broadcast + 1)\<close>.
\<close>

definition hosts :: "ip_network \<Rightarrow> ip_address list" where
  "hosts net =
     (let v = net_version net;
          network = ip_int (network_address net);
          broadcast = broadcast_address net
      in if Suc (prefixlen net) = max_prefixlen v
           then map (address_class v) [network ..< broadcast + 1]
         else if prefixlen net = max_prefixlen v
           then [network_address net]
         else (case v of
                 V4 \<Rightarrow> map (address_class v) [network + 1 ..< broadcast]
               | V6 \<Rightarrow> map (address_class v) [network + 1 ..< broadcast + 1]))"

text \<open>
  Address comparison. \<^verbatim>\<open>__lt__\<close> raises \<^verbatim>\<open>TypeError\<close> across versions; \<^verbatim>\<open>__eq__\<close> compares
  integer and version, and the zone as well for IPv6; \<^verbatim>\<open><=\<close> comes from
  \<^verbatim>\<open>functools.total_ordering\<close>: \<^verbatim>\<open>a < b or a == b\<close>.
\<close>

definition address_lt :: "ip_address \<Rightarrow> ip_address \<Rightarrow> type_error + bool" where
  "address_lt a b =
     (if version a \<noteq> version b then Inl TypeError else Inr (ip_int a < ip_int b))"

definition address_eq :: "ip_address \<Rightarrow> ip_address \<Rightarrow> bool" where
  "address_eq a b \<longleftrightarrow>
     ip_int a = ip_int b \<and> version a = version b \<and>
     (case version a of V4 \<Rightarrow> True | V6 \<Rightarrow> scope_id a = scope_id b)"

definition address_le :: "ip_address \<Rightarrow> ip_address \<Rightarrow> type_error + bool" where
  "address_le a b =
     (case address_lt a b of Inl e \<Rightarrow> Inl e | Inr r \<Rightarrow> Inr (r \<or> address_eq a b))"

text \<open>The chained comparison \<^verbatim>\<open>start <= ip <= end\<close>: the second half is evaluated only
  when the first is true.\<close>

definition between :: "ip_address \<Rightarrow> ip_address \<Rightarrow> ip_address \<Rightarrow> type_error + bool" where
  "between start a end =
     (case address_le start a of
        Inl e \<Rightarrow> Inl e
      | Inr False \<Rightarrow> Inr False
      | Inr True \<Rightarrow> address_le a end)"

section \<open>Resolving the range to sweep\<close>

text \<open>The list comprehension of \<^verbatim>\<open>get_ip_range\<close>: an exception in the condition ends it.\<close>

fun select_range :: "ip_address \<Rightarrow> ip_address \<Rightarrow> ip_address list \<Rightarrow> type_error + ip_address list" where
  "select_range start end [] = Inr []"
| "select_range start end (a # as) =
     (case between start a end of
        Inl e \<Rightarrow> Inl e
      | Inr keep \<Rightarrow>
          (case select_range start end as of
             Inl e \<Rightarrow> Inl e
           | Inr rest \<Rightarrow> Inr (if keep then a # rest else rest)))"

text \<open>\<^verbatim>\<open>get_ip_range\<close>: every exception is caught and turned into \<^verbatim>\<open>None\<close>.\<close>

definition get_ip_range :: "ipaddress_lib \<Rightarrow> string \<Rightarrow> string \<Rightarrow> string \<Rightarrow> ip_address list option" where
  "get_ip_range lib start_ip end_ip subnet =
     (case ip_network lib subnet of
        Inl e \<Rightarrow> None
      | Inr network \<Rightarrow>
          (case parse_address lib start_ip of
             Inl e \<Rightarrow> None
           | Inr start \<Rightarrow>
               (case parse_address lib end_ip of
                  Inl e \<Rightarrow> None
                | Inr end \<Rightarrow>
                    (case select_range start end (hosts network) of
                       Inl e \<Rightarrow> None
                     | Inr r \<Rightarrow> Some r))))"

text \<open>
  The first block of \<^verbatim>\<open>start_sweep\<close> (the \<^verbatim>\<open>try\<close> that computes \<^verbatim>\<open>ip_range\<close>). \<open>Inl msg\<close>
  is the \<^verbatim>\<open>ValueError\<close> whose text goes to the error dialog; a Python string is true when
  it is not empty, a list or \<^verbatim>\<open>None\<close> is false when empty or \<^verbatim>\<open>None\<close>.
\<close>

definition invalid_range_msg :: string where
  "invalid_range_msg = ''Invalid IP range within subnet.''"

definition sweep_ip_range :: "ipaddress_lib \<Rightarrow> string \<Rightarrow> string \<Rightarrow> string \<Rightarrow> string + ip_address list" where
  "sweep_ip_range lib subnet start_ip end_ip =
     (if start_ip \<noteq> [] \<and> end_ip \<noteq> [] then
        (case get_ip_range lib start_ip end_ip subnet of
           None \<Rightarrow> Inl invalid_range_msg
         | Some ip_range \<Rightarrow> if ip_range = [] then Inl invalid_range_msg else Inr ip_range)
      else
        (case ip_network lib subnet of
           Inl msg \<Rightarrow> Inl msg
         | Inr network \<Rightarrow> Inr (hosts network)))"

section \<open>Probing one host\<close>

text \<open>
  The operating system is a parameter: \<open>platform_system\<close> is the value of
  \<^verbatim>\<open>platform.system().lower()\<close>, \<open>subprocess_run\<close> is \<^verbatim>\<open>subprocess.run\<close> on an argument
  vector, giving the return code of the process (\<open>Inr\<close>) or the exception it raised
  instead of starting one (\<open>Inl\<close>, with the exception's name). A call is taken to come
  back: a ping is bounded by its count and its timeout. An argument keeps the value that the
  source passes through \<^verbatim>\<open>str\<close>.
\<close>

datatype arg = Str string | Str_int int | Str_ip ip_address

record os_env =
  platform_system :: string
  subprocess_run :: "arg list \<Rightarrow> string + int"

definition ping_argv :: "os_env \<Rightarrow> ip_address \<Rightarrow> int \<Rightarrow> int \<Rightarrow> arg list" where
  "ping_argv os a cnt timeout =
     (let system = platform_system os;
          count_param = (if system = ''windows'' then ''-n'' else ''-c'');
          timeout_param = (if system = ''windows'' then ''-w'' else ''-W'')
      in [Str ''ping'', Str count_param, Str_int cnt, Str timeout_param, Str_int timeout, Str_ip a])"

text \<open>\<^verbatim>\<open>ping_host\<close>; the first component stands for \<^verbatim>\<open>str(ip)\<close>.\<close>

definition ping_host :: "os_env \<Rightarrow> ip_address \<Rightarrow> int \<Rightarrow> int \<Rightarrow> ip_address \<times> bool" where
  "ping_host os a cnt timeout =
     (case subprocess_run os (ping_argv os a cnt timeout) of
        Inr returncode \<Rightarrow> (a, returncode = 0)
      | Inl exc \<Rightarrow> (a, False))"

section \<open>The sweep: a thread pool and the loop that collects its results\<close>

definition MAX_WORKERS :: nat where
  "MAX_WORKERS = 50"

text \<open>The lines \<^verbatim>\<open>update_output\<close> appends to the text widget, and the error dialog.\<close>

datatype line =
    Pinging_subnet string
  | Ping_count int int
  | Range_bounds string string
  | Range_full_subnet
  | Starting_sweep
  | Host_Up ip_address
  | No_Response ip_address
  | Sweep_complete
  | Hosts_responded nat

datatype dialog = showerror string string

datatype phase = Submitting | Collecting | Complete

text \<open>
  The state of one call of \<^verbatim>\<open>start_sweep\<close> once \<^verbatim>\<open>ip_range\<close> is known. The main thread is
  in the dict comprehension (\<open>Submitting\<close>: \<open>to_submit\<close> is the rest of \<^verbatim>\<open>ip_range\<close>,
  \<open>futures\<close> the addresses submitted so far), in the \<^verbatim>\<open>as_completed\<close> loop (\<open>Collecting\<close>:
  \<open>yielded\<close> futures received so far) or past the \<^verbatim>\<open>with\<close> block (\<open>Complete\<close>). The
  executor is its \<^verbatim>\<open>_max_workers\<close>, \<^verbatim>\<open>_work_queue\<close>, \<^verbatim>\<open>_idle_semaphore\<close> and \<^verbatim>\<open>_threads\<close>: a
  worker thread is blocked in \<^verbatim>\<open>work_queue.get\<close> (\<open>None\<close>) or runs \<^verbatim>\<open>ping_host\<close> on an address
  (\<open>Some a\<close>). \<open>finished\<close> holds the results of the futures that are done and not yet
  yielded.
\<close>

record sweep_state =
  phase :: phase
  to_submit :: "ip_address list"
  futures :: "ip_address list"
  max_workers :: nat
  work_queue :: "ip_address list"
  idle_semaphore :: nat
  threads :: "ip_address option list"
  finished :: "(ip_address \<times> bool) list"
  yielded :: nat
  responsive_hosts :: "ip_address list"
  output_text :: "line list"
  result_list :: "ip_address list"

text \<open>\<^verbatim>\<open>_adjust_thread_count\<close>: no new thread while the idle semaphore can be taken, and
  none beyond \<^verbatim>\<open>_max_workers\<close>.\<close>

definition adjust_thread_count :: "sweep_state \<Rightarrow> sweep_state" where
  "adjust_thread_count s =
     (if 0 < idle_semaphore s then s\<lparr>idle_semaphore := idle_semaphore s - 1\<rparr>
      else if length (threads s) < max_workers s then s\<lparr>threads := threads s @ [None]\<rparr>
      else s)"

text \<open>\<^verbatim>\<open>executor.submit(ping_host, ip, count, timeout)\<close> for the next address.\<close>

definition submit :: "ip_address \<Rightarrow> sweep_state \<Rightarrow> sweep_state" where
  "submit a s =
     adjust_thread_count (s\<lparr>futures := futures s @ [a], work_queue := work_queue s @ [a]\<rparr>)"

text \<open>One pass of the body of the \<^verbatim>\<open>for future in as_completed(futures)\<close> loop, on the
  finished future at position \<open>j\<close>.\<close>

definition collect :: "nat \<Rightarrow> sweep_state \<Rightarrow> sweep_state" where
  "collect j s =
     (let (a, is_up) = finished s ! j;
          s' = s\<lparr>finished := take j (finished s) @ drop (Suc j) (finished s),
                 yielded := Suc (yielded s)\<rparr>
      in if is_up
         then s'\<lparr>responsive_hosts := responsive_hosts s' @ [a],
                 output_text := output_text s' @ [Host_Up a]\<rparr>
         else s'\<lparr>output_text := output_text s' @ [No_Response a]\<rparr>)"

text \<open>Leaving the \<^verbatim>\<open>with\<close> block (the worker threads are joined) and the last four lines of
  \<^verbatim>\<open>start_sweep\<close>.\<close>

definition complete :: "sweep_state \<Rightarrow> sweep_state" where
  "complete s =
     s\<lparr>phase := Complete,
       threads := [],
       output_text := output_text s @ [Sweep_complete, Hosts_responded (length (responsive_hosts s))],
       result_list := responsive_hosts s\<rparr>"

text \<open>What the main thread can do next.\<close>

definition main_steps :: "sweep_state \<Rightarrow> sweep_state list" where
  "main_steps s =
     (case phase s of
        Submitting \<Rightarrow>
          (case to_submit s of
             [] \<Rightarrow> [s\<lparr>phase := Collecting\<rparr>]
           | a # rest \<Rightarrow> [submit a (s\<lparr>to_submit := rest\<rparr>)])
      | Collecting \<Rightarrow>
          (if yielded s < length (futures s)
           then map (\<lambda>j. collect j s) [0 ..< length (finished s)]
           else if work_queue s = [] \<and> list_all (\<lambda>t. t = None) (threads s)
           then [complete s]
           else [])
      | Complete \<Rightarrow> [])"

text \<open>What worker thread \<open>i\<close> can do next: take the head of the queue, or finish the call
  it runs, which sets the future's result and releases the idle semaphore (one step here).\<close>

definition worker_steps :: "(ip_address \<Rightarrow> ip_address \<times> bool) \<Rightarrow> sweep_state \<Rightarrow> nat \<Rightarrow> sweep_state list" where
  "worker_steps probe s i =
     (case threads s ! i of
        None \<Rightarrow>
          (case work_queue s of
             [] \<Rightarrow> []
           | a # queue \<Rightarrow> [s\<lparr>work_queue := queue, threads := (threads s)[i := Some a]\<rparr>])
      | Some a \<Rightarrow>
          [s\<lparr>threads := (threads s)[i := None],
             finished := finished s @ [probe a],
             idle_semaphore := Suc (idle_semaphore s)\<rparr>])"

definition next_states :: "(ip_address \<Rightarrow> ip_address \<times> bool) \<Rightarrow> sweep_state \<Rightarrow> sweep_state list" where
  "next_states probe s =
     main_steps s @ concat (map (worker_steps probe s) [0 ..< length (threads s)])"

definition sweep_step :: "(ip_address \<Rightarrow> ip_address \<times> bool) \<Rightarrow> sweep_state \<Rightarrow> sweep_state \<Rightarrow> bool" where
  "sweep_step probe s s' \<longleftrightarrow> s' \<in> set (next_states probe s)"

definition reachable :: "(ip_address \<Rightarrow> ip_address \<times> bool) \<Rightarrow> sweep_state \<Rightarrow> sweep_state \<Rightarrow> bool" where
  "reachable probe s0 s \<longleftrightarrow> (sweep_step probe)\<^sup>*\<^sup>* s0 s"

text \<open>
  \<^verbatim>\<open>start_sweep\<close> up to the creation of the executor: the error dialog and no sweep, or the
  header lines and the state in which the sweep starts. \<open>out0\<close> and \<open>results0\<close> are the
  contents of the text widget and of the shared result list at the call.
\<close>

definition start_sweep ::
  "ipaddress_lib \<Rightarrow> string \<Rightarrow> string \<Rightarrow> string \<Rightarrow> int \<Rightarrow> int \<Rightarrow> line list \<Rightarrow> ip_address list
     \<Rightarrow> dialog + sweep_state" where
  "start_sweep lib subnet start_ip end_ip cnt timeout out0 results0 =
     (case sweep_ip_range lib subnet start_ip end_ip of
        Inl msg \<Rightarrow> Inl (showerror ''Invalid Input'' msg)
      | Inr ip_range \<Rightarrow>
          Inr \<lparr>phase = Submitting,
               to_submit = ip_range,
               futures = [],
               max_workers = MAX_WORKERS,
               work_queue = [],
               idle_semaphore = 0,
               threads = [],
               finished = [],
               yielded = 0,
               responsive_hosts = [],
               output_text = out0 @
                 [Pinging_subnet subnet, Ping_count cnt timeout,
                  (if start_ip \<noteq> [] \<and> end_ip \<noteq> [] then Range_bounds start_ip end_ip
                   else Range_full_subnet),
                  Starting_sweep],
               result_list = results0\<rparr>)"

text \<open>The probes in flight, and the probe results the loop has written since the call.\<close>

definition in_flight :: "sweep_state \<Rightarrow> nat" where
  "in_flight s = length (filter (\<lambda>t. t \<noteq> None) (threads s))"

fun results_of :: "line list \<Rightarrow> (ip_address \<times> bool) list" where
  "results_of [] = []"
| "results_of (Host_Up a # ls) = (a, True) # results_of ls"
| "results_of (No_Response a # ls) = (a, False) # results_of ls"
| "results_of (_ # ls) = results_of ls"

definition probe_results :: "line list \<Rightarrow> sweep_state \<Rightarrow> (ip_address \<times> bool) list" where
  "probe_results out0 s = results_of (drop (length out0) (output_text s))"


section \<open>Auxiliary notions for the statements\<close>

text \<open>\<^verbatim>\<open>start > end\<close> on address objects (\<^verbatim>\<open>functools.total_ordering\<close>:
  \<^verbatim>\<open>not (a < b) and a != b\<close>).\<close>

definition address_gt :: "ip_address \<Rightarrow> ip_address \<Rightarrow> type_error + bool" where
  "address_gt a b =
     (case address_lt a b of Inl e \<Rightarrow> Inl e | Inr r \<Rightarrow> Inr (\<not> r \<and> \<not> address_eq a b))"

text \<open>An address of the bounds' family lies in \<open>[start, end]\<close>.\<close>

definition within :: "ip_address \<Rightarrow> ip_address \<Rightarrow> ip_address \<Rightarrow> bool" where
  "within start end a \<longleftrightarrow>
     (ip_int start < ip_int a \<or> address_eq start a) \<and> (ip_int a < ip_int end \<or> address_eq a end)"

subsection \<open>The sweep: what is running, what is accounted for\<close>

text \<open>The addresses whose probes run, thread by thread.\<close>

fun running_of :: "ip_address option list \<Rightarrow> ip_address list" where
  "running_of [] = []"
| "running_of (None # ts) = running_of ts"
| "running_of (Some a # ts) = a # running_of ts"

text \<open>The probe of a sweep with the given ping count and timeout.\<close>

definition probe_of :: "os_env \<Rightarrow> int \<Rightarrow> int \<Rightarrow> ip_address \<Rightarrow> ip_address \<times> bool" where
  "probe_of os cnt timeout a = ping_host os a cnt timeout"

text \<open>
  Every candidate is in exactly one place: not yet submitted, in the work queue, running,
  finished and waiting for the loop, or written to the output. \<open>rng\<close> is the resolved
  range and \<open>out0\<close> the output before the call.
\<close>

definition accounted :: "(ip_address \<Rightarrow> ip_address \<times> bool) \<Rightarrow> ip_address list \<Rightarrow> line list \<Rightarrow> sweep_state \<Rightarrow> bool" where
  "accounted probe rng out0 s \<longleftrightarrow>
     rng = futures s @ to_submit s \<and>
     (phase s = Submitting \<or> to_submit s = []) \<and>
     length out0 \<le> length (output_text s) \<and>
     image_mset probe (mset (futures s)) =
       image_mset probe (mset (work_queue s) + mset (running_of (threads s))) +
       mset (finished s) + mset (probe_results out0 s) \<and>
     yielded s = length (probe_results out0 s) \<and>
     responsive_hosts s = map fst (filter snd (probe_results out0 s))"

text \<open>The pool stays within its budget, and has a thread as soon as there is work.\<close>

definition staffed :: "sweep_state \<Rightarrow> bool" where
  "staffed s \<longleftrightarrow>
     0 < max_workers s \<and> length (threads s) \<le> max_workers s \<and>
     (if futures s = [] then idle_semaphore s = 0
      else phase s = Complete \<or> threads s \<noteq> [])"

text \<open>The shared result list is written once, when the sweep has completed.\<close>

definition delivered :: "ip_address list \<Rightarrow> sweep_state \<Rightarrow> bool" where
  "delivered results0 s \<longleftrightarrow>
     (if phase s = Complete
      then result_list s = responsive_hosts s \<and> yielded s = length (futures s) \<and> threads s = []
      else result_list s = results0)"

text \<open>A measure that every step of the sweep decreases by one.\<close>

definition phase_rank :: "phase \<Rightarrow> nat" where
  "phase_rank p = (case p of Submitting \<Rightarrow> 2 | Collecting \<Rightarrow> 1 | Complete \<Rightarrow> 0)"

definition sweep_measure :: "sweep_state \<Rightarrow> nat" where
  "sweep_measure s =
     4 * length (to_submit s) + 3 * length (work_queue s) + 2 * in_flight s +
     length (finished s) + phase_rank (phase s)"

text \<open>A run of the sweep under a schedule: each number picks one of the next states.\<close>

fun run :: "(ip_address \<Rightarrow> ip_address \<times> bool) \<Rightarrow> nat list \<Rightarrow> sweep_state \<Rightarrow> sweep_state option" where
  "run probe [] s = Some s"
| "run probe (k # ks) s =
     (if k < length (next_states probe s) then run probe ks (next_states probe s ! k) else None)"

subsection \<open>A library environment for the examples\<close>

text \<open>
  The answers of \<^verbatim>\<open>ipaddress\<close> on the texts used in the examples below (192.168.1.0 is
  3232235776, 10.0.0.0 is 167772160, fe80:: is \<open>0xfe80 * 2 ^ 112\<close>), with the message of
  the \<^verbatim>\<open>ValueError\<close> it raises on a text that is neither kind of address. The library
  writes the text into the message with \<^verbatim>\<open>repr\<close>, which is the text between single quotes
  for a text of printable ASCII characters without quote or backslash; the examples use only
  such texts, and no text that the table does not hold or that the library would accept.
\<close>

definition not_a_network :: "string \<Rightarrow> string" where
  "not_a_network s = CHR 0x27 # s @ CHR 0x27 # '' does not appear to be an IPv4 or IPv6 network''"

definition not_an_address :: "string \<Rightarrow> string" where
  "not_an_address s = CHR 0x27 # s @ CHR 0x27 # '' does not appear to be an IPv4 or IPv6 address''"

definition demo_networks :: "(string \<times> ip_address \<times> nat) list" where
  "demo_networks =
     [(''192.168.1.0/30'', address_class V4 3232235776, 30),
      (''10.0.0.0/24'', address_class V4 167772160, 24),
      (''fe80::/126'', address_class V6 338288524927261089654018896841347694592, 126)]"

definition demo_addresses :: "(string \<times> ip_address) list" where
  "demo_addresses =
     [(''192.168.1.1'', address_class V4 3232235777),
      (''192.168.1.2'', address_class V4 3232235778),
      (''192.168.1.100'', address_class V4 3232235876),
      (''192.168.1.200'', address_class V4 3232235976),
      (''10.0.0.5'', address_class V4 167772165),
      (''10.0.0.250'', address_class V4 167772410)]"

definition demo_lib :: ipaddress_lib where
  "demo_lib =
     \<lparr>split_network =
        (\<lambda>s. case map_of demo_networks s of Some r \<Rightarrow> Inr r | None \<Rightarrow> Inl (not_a_network s)),
      parse_address =
        (\<lambda>s. case map_of demo_addresses s of Some a \<Rightarrow> Inr a | None \<Rightarrow> Inl (not_an_address s))\<rparr>"


subsection \<open>An operating system and a sweep for the examples\<close>

text \<open>
  On \<open>demo_os\<close> the ping of 192.168.1.1 exits with 0 and any other ping with 1; on
  \<open>broken_os\<close> \<^verbatim>\<open>subprocess.run\<close> raises for every call (there is no ping binary). The
  states are those of the sweep of 192.168.1.0/30 with ping count 1 and timeout 100, from
  an empty output and result list: at the start, with both probes in flight, with one of the
  two results written, and at the end.
\<close>

definition demo_os :: os_env where
  "demo_os =
     \<lparr>platform_system = ''linux'',
      subprocess_run = (\<lambda>argv. if last argv = Str_ip (address_class V4 3232235777) then Inr 0 else Inr 1)\<rparr>"

definition broken_os :: os_env where
  "broken_os = \<lparr>platform_system = ''linux'', subprocess_run = (\<lambda>argv. Inl ''FileNotFoundError'')\<rparr>"

definition demo_header :: "line list" where
  "demo_header = [Pinging_subnet ''192.168.1.0/30'', Ping_count 1 100, Range_full_subnet, Starting_sweep]"

definition demo_start :: sweep_state where
  "demo_start =
     \<lparr>phase = Submitting,
      to_submit = [address_class V4 3232235777, address_class V4 3232235778],
      futures = [], max_workers = MAX_WORKERS, work_queue = [], idle_semaphore = 0,
      threads = [], finished = [], yielded = 0, responsive_hosts = [],
      output_text = demo_header, result_list = []\<rparr>"

definition demo_in_flight :: sweep_state where
  "demo_in_flight =
     \<lparr>phase = Collecting, to_submit = [],
      futures = [address_class V4 3232235777, address_class V4 3232235778],
      max_workers = MAX_WORKERS, work_queue = [], idle_semaphore = 0,
      threads = [Some (address_class V4 3232235777), Some (address_class V4 3232235778)],
      finished = [], yielded = 0, responsive_hosts = [],
      output_text = demo_header, result_list = []\<rparr>"

definition demo_partial :: sweep_state where
  "demo_partial =
     \<lparr>phase = Collecting, to_submit = [],
      futures = [address_class V4 3232235777, address_class V4 3232235778],
      max_workers = MAX_WORKERS, work_queue = [], idle_semaphore = 1,
      threads = [Some (address_class V4 3232235777), None],
      finished = [], yielded = 1, responsive_hosts = [],
      output_text = demo_header @ [No_Response (address_class V4 3232235778)], result_list = []\<rparr>"

definition demo_final :: sweep_state where
  "demo_final =
     \<lparr>phase = Complete, to_submit = [],
      futures = [address_class V4 3232235777, address_class V4 3232235778],
      max_workers = MAX_WORKERS, work_queue = [], idle_semaphore = 2,
      threads = [], finished = [], yielded = 2,
      responsive_hosts = [address_class V4 3232235777],
      output_text = demo_header @
        [No_Response (address_class V4 3232235778), Host_Up (address_class V4 3232235777),
         Sweep_complete, Hosts_responded 1],
      result_list = [address_class V4 3232235777]\<rparr>"

text \<open>The end of the same sweep on \<open>broken_os\<close>.\<close>

definition broken_final :: sweep_state where
  "broken_final =
     \<lparr>phase = Complete, to_submit = [],
      futures = [address_class V4 3232235777, address_class V4 3232235778],
      max_workers = MAX_WORKERS, work_queue = [], idle_semaphore = 2,
      threads = [], finished = [], yielded = 2,
      responsive_hosts = [],
      output_text = demo_header @
        [No_Response (address_class V4 3232235778), No_Response (address_class V4 3232235777),
         Sweep_complete, Hosts_responded 0],
      result_list = []\<rparr>"


section \<open>Properties of the resolved range\<close>

subsection \<open>Filtering keeps the order of the hosts\<close>

lemma select_range_filter:
  "select_range start end as = Inr r \<Longrightarrow> r = filter (\<lambda>a. between start a end = Inr True) as"
  by (induction as arbitrary: r) (auto split: sum.splits if_splits)

lemma hosts_ascending: "sorted_wrt (\<lambda>a b. ip_int a < ip_int b) (hosts net)"
  by (simp add: hosts_def Let_def sorted_wrt_map address_class_def del: upt_Suc split: ip_version.splits)

lemma ascending_distinct:
  "sorted_wrt (\<lambda>a b. ip_int a < ip_int b) xs \<Longrightarrow> distinct xs"
  by (induction xs) auto

lemma get_ip_range_Some:
  "get_ip_range lib start_ip end_ip subnet = Some r \<Longrightarrow>
   \<exists>net start end. ip_network lib subnet = Inr net \<and> parse_address lib start_ip = Inr start \<and>
     parse_address lib end_ip = Inr end \<and> select_range start end (hosts net) = Inr r"
  by (auto simp: get_ip_range_def split: sum.splits)

lemma sweep_ip_range_cases:
  assumes "sweep_ip_range lib subnet start_ip end_ip = Inr r"
  shows "\<exists>net P. ip_network lib subnet = Inr net \<and> r = filter P (hosts net)"
proof (cases "start_ip \<noteq> [] \<and> end_ip \<noteq> []")
  case True
  with assms have "get_ip_range lib start_ip end_ip subnet = Some r"
    by (auto simp: sweep_ip_range_def split: option.splits if_splits)
  then obtain net start "end" where "ip_network lib subnet = Inr net"
      and "select_range start end (hosts net) = Inr r"
    using get_ip_range_Some by blast
  then show ?thesis
    using select_range_filter by blast
next
  case False
  with assms obtain net where "ip_network lib subnet = Inr net" and "r = hosts net"
    by (auto simp: sweep_ip_range_def split: sum.splits)
  then have "ip_network lib subnet = Inr net \<and> r = filter (\<lambda>_. True) (hosts net)"
    by simp
  then show ?thesis by blast
qed

subsection \<open>Masks, network and broadcast address\<close>

lemma ALL_ONES_mask: "ALL_ONES v = mask (max_prefixlen v)"
  by (simp add: ALL_ONES_def mask_eq_exp_minus_1)

lemma xor_cancel_nat: "(a XOR b) XOR a = (b::nat)"
  by (rule bit_eqI) (auto simp: bit_xor_iff)

lemma hostmask_mask:
  "hostmask net = mask (max_prefixlen (net_version net) - prefixlen net)"
  by (simp add: hostmask_def ip_int_from_prefix_def ALL_ONES_mask drop_bit_mask_eq xor_cancel_nat)

lemma and_netmask:
  fixes x :: nat
  assumes "x < 2 ^ w" "p \<le> w"
  shows "x AND (mask w XOR drop_bit p (mask w)) = push_bit (w - p) (drop_bit (w - p) x)"
proof (rule bit_eqI)
  fix k
  have "bit x k \<Longrightarrow> k < w"
    using assms(1) by (metis bit_take_bit_iff take_bit_nat_eq_self)
  then show "bit (x AND (mask w XOR drop_bit p (mask w))) k = bit (push_bit (w - p) (drop_bit (w - p) x)) k"
    using assms(2) by (auto simp: bit_and_iff bit_xor_iff bit_mask_iff bit_drop_bit_eq bit_push_bit_iff)
qed

lemma or_mask_push:
  fixes y :: nat
  shows "push_bit h y OR mask h = push_bit h y + mask h"
  by (rule disjunctive_add[symmetric]) (auto simp: bit_push_bit_iff bit_mask_iff)

lemma make_network_fields:
  "version (network_address (make_network addr p)) = version addr"
  "prefixlen (make_network addr p) = p"
  "net_version (make_network addr p) = version addr"
  by (simp_all add: make_network_def Let_def address_class_def net_version_def)

lemma make_network_int:
  assumes "ip_int addr < 2 ^ max_prefixlen (version addr)" "p \<le> max_prefixlen (version addr)"
  shows "ip_int (network_address (make_network addr p)) =
         push_bit (max_prefixlen (version addr) - p) (drop_bit (max_prefixlen (version addr) - p) (ip_int addr))"
proof -
  have "ip_int (network_address (make_network addr p)) = ip_int addr AND ip_int_from_prefix (version addr) p"
    by (simp add: make_network_def Let_def address_class_def)
  then show ?thesis
    using and_netmask[OF assms] by (simp add: ip_int_from_prefix_def ALL_ONES_mask)
qed

lemma broadcast_make_network:
  assumes "ip_int addr < 2 ^ max_prefixlen (version addr)" "p \<le> max_prefixlen (version addr)"
  shows "broadcast_address (make_network addr p) =
         ip_int (network_address (make_network addr p)) + (2 ^ (max_prefixlen (version addr) - p) - 1)"
proof -
  have "broadcast_address (make_network addr p) =
        ip_int (network_address (make_network addr p)) + mask (max_prefixlen (version addr) - p)"
    by (simp add: broadcast_address_def hostmask_mask make_network_fields make_network_int[OF assms]
        or_mask_push)
  then show ?thesis by (simp add: mask_eq_exp_minus_1)
qed

lemma num_addresses_make_network:
  assumes "ip_int addr < 2 ^ max_prefixlen (version addr)" "p \<le> max_prefixlen (version addr)"
  shows "num_addresses (make_network addr p) = 2 ^ (max_prefixlen (version addr) - p)"
  by (simp add: num_addresses_def broadcast_make_network[OF assms])

lemma map_ip_int_address_class: "map ip_int (map (address_class v) xs) = xs"
  by (induction xs) (simp_all add: address_class_def)

lemma hosts_version: "a \<in> set (hosts net) \<Longrightarrow> version a = net_version net"
  by (auto simp: hosts_def Let_def address_class_def net_version_def split: if_splits ip_version.splits)

lemma hosts_ints:
  "map ip_int (hosts net) =
     (let network = ip_int (network_address net); broadcast = broadcast_address net
      in if Suc (prefixlen net) = max_prefixlen (net_version net) then [network ..< broadcast + 1]
         else if prefixlen net = max_prefixlen (net_version net) then [network]
         else if net_version net = V4 then [network + 1 ..< broadcast]
         else [network + 1 ..< broadcast + 1])"
  by (simp add: hosts_def Let_def map_ip_int_address_class del: upt_Suc map_map split: ip_version.splits)

lemma address_class_sel:
  "version (address_class v x) = v" "ip_int (address_class v x) = x" "scope_id (address_class v x) = None"
  by (simp_all add: address_class_def)

lemma address_class_eq: "address_class v x = address_class w y \<longleftrightarrow> v = w \<and> x = y"
  by (simp add: address_class_def)

lemma network_address_make_network:
  assumes "ip_int addr < 2 ^ max_prefixlen (version addr)" "p \<le> max_prefixlen (version addr)"
    and "scope_id addr = None"
  shows "network_address (make_network addr p) =
         address_class (version addr)
           (push_bit (max_prefixlen (version addr) - p) (drop_bit (max_prefixlen (version addr) - p) (ip_int addr)))"
proof -
  have "ip_int addr AND ip_int_from_prefix (version addr) p =
        push_bit (max_prefixlen (version addr) - p) (drop_bit (max_prefixlen (version addr) - p) (ip_int addr))"
    using and_netmask[OF assms(1,2)] by (simp add: ip_int_from_prefix_def ALL_ONES_mask)
  then show ?thesis
    using assms(3) by (cases addr) (auto simp: make_network_def Let_def address_class_def)
qed

lemma hosts_make_network:
  assumes "ip_int addr < 2 ^ max_prefixlen (version addr)" "p \<le> max_prefixlen (version addr)"
    and "scope_id addr = None"
  shows "hosts (make_network addr p) =
     (let v = version addr; h = max_prefixlen v - p;
          network = push_bit h (drop_bit h (ip_int addr));
          broadcast = network + (2 ^ h - 1)
      in if Suc p = max_prefixlen v then map (address_class v) [network ..< broadcast + 1]
         else if p = max_prefixlen v then [address_class v network]
         else (case v of
                 V4 \<Rightarrow> map (address_class v) [network + 1 ..< broadcast]
               | V6 \<Rightarrow> map (address_class v) [network + 1 ..< broadcast + 1]))"
  unfolding hosts_def Let_def
  by (simp only: make_network_fields broadcast_make_network[OF assms(1,2)]
      network_address_make_network[OF assms] address_class_def ip_address.simps)

subsection \<open>The example environment, evaluated\<close>

lemma demo_parse_simps:
  "parse_address demo_lib ''10.0.0.250'' = Inr (address_class V4 167772410)"
  "parse_address demo_lib ''10.0.0.5'' = Inr (address_class V4 167772165)"
  "parse_address demo_lib ''192.168.1.1'' = Inr (address_class V4 3232235777)"
  "parse_address demo_lib ''192.168.1.2'' = Inr (address_class V4 3232235778)"
  "parse_address demo_lib ''192.168.1.100'' = Inr (address_class V4 3232235876)"
  "parse_address demo_lib ''192.168.1.200'' = Inr (address_class V4 3232235976)"
  "parse_address demo_lib ''abc'' = Inl (not_an_address ''abc'')"
  by (simp_all add: demo_lib_def demo_addresses_def)

lemma demo_split_simps:
  "split_network demo_lib ''192.168.1.0/30'' = Inr (address_class V4 3232235776, 30)"
  "split_network demo_lib ''10.0.0.0/24'' = Inr (address_class V4 167772160, 24)"
  "split_network demo_lib ''fe80::/126'' = Inr (address_class V6 338288524927261089654018896841347694592, 126)"
  by (simp_all add: demo_lib_def demo_networks_def)

lemma demo_net30: "ip_network demo_lib ''192.168.1.0/30'' = Inr (make_network (address_class V4 3232235776) 30)"
  by (simp add: ip_network_def demo_split_simps)

lemma demo_net30_version: "net_version (make_network (address_class V4 3232235776) 30) = V4"
  by (simp add: make_network_fields address_class_def)

lemma demo_hosts30:
  "hosts (make_network (address_class V4 3232235776) 30) =
     [address_class V4 3232235777, address_class V4 3232235778]"
  by (subst hosts_make_network)
     (simp_all add: address_class_def Let_def push_bit_eq_mult drop_bit_eq_div upt_rec_numeral)

lemma demo_range30:
  "sweep_ip_range demo_lib ''192.168.1.0/30'' [] [] =
     Inr [address_class V4 3232235777, address_class V4 3232235778]"
  by (simp add: sweep_ip_range_def ip_network_def demo_split_simps demo_hosts30)

lemma demo_hosts126:
  "hosts (make_network (address_class V6 338288524927261089654018896841347694592) 126) =
     [address_class V6 338288524927261089654018896841347694593,
      address_class V6 338288524927261089654018896841347694594,
      address_class V6 338288524927261089654018896841347694595]"
  by (subst hosts_make_network)
     (simp_all add: address_class_def Let_def push_bit_eq_mult drop_bit_eq_div upt_rec_numeral)

subsection \<open>Order of the range\<close>

text \<open>
  \<^bold>\<open>C8.\<close> Whatever the specification (bounded or not), a range that \<^verbatim>\<open>start_sweep\<close> resolves
  is strictly ascending by the numeric value of its addresses and holds no address twice.
\<close>

theorem resolve_strictly_ascending:
  assumes "sweep_ip_range lib subnet start_ip end_ip = Inr r"
  shows "sorted_wrt (\<lambda>a b. ip_int a < ip_int b) r \<and> distinct r"
proof -
  from assms obtain net P where r: "r = filter P (hosts net)"
    using sweep_ip_range_cases by blast
  have "sorted_wrt (\<lambda>a b. ip_int a < ip_int b) r"
    unfolding r by (rule sorted_wrt_filter) (rule hosts_ascending)
  then show ?thesis by (simp add: ascending_distinct)
qed

text \<open>The two hosts of 192.168.1.0/30, resolved without bounds.\<close>

theorem resolve_strictly_ascending_witness:
  "sweep_ip_range demo_lib ''192.168.1.0/30'' [] [] =
     Inr [address_class V4 3232235777, address_class V4 3232235778] \<and>
   sorted_wrt (\<lambda>a b. ip_int a < ip_int b) [address_class V4 3232235777, address_class V4 3232235778] \<and>
   distinct [address_class V4 3232235777, address_class V4 3232235778]"
  using resolve_strictly_ascending[OF demo_range30] demo_range30 by simp

subsection \<open>Unparsable and reversed bounds\<close>

lemma gt_not_between:
  assumes "address_gt start end = Inr True"
  shows "between start a end \<noteq> Inr True"
  using assms
  by (auto simp: address_gt_def between_def address_le_def address_lt_def address_eq_def
      split: if_splits sum.splits bool.splits ip_version.splits)

lemma select_range_none_between:
  assumes "\<forall>a \<in> set as. between start a end \<noteq> Inr True"
  shows "select_range start end as = Inr r \<Longrightarrow> r = []"
  using assms by (auto dest!: select_range_filter simp: filter_empty_conv)

lemma bounded_rejected:
  assumes "start_ip \<noteq> []" "end_ip \<noteq> []"
    and "\<And>r. get_ip_range lib start_ip end_ip subnet = Some r \<Longrightarrow> r = []"
  shows "sweep_ip_range lib subnet start_ip end_ip = Inl invalid_range_msg"
  using assms by (auto simp: sweep_ip_range_def split: option.splits)

lemma start_sweep_rejected:
  "sweep_ip_range lib subnet start_ip end_ip = Inl msg \<Longrightarrow>
   start_sweep lib subnet start_ip end_ip cnt timeout out0 results0 = Inl (showerror ''Invalid Input'' msg)"
  by (simp add: start_sweep_def)

lemma unparsable_bound_rejected:
  assumes "start_ip \<noteq> []" "end_ip \<noteq> []"
    and "(\<exists>msg. parse_address lib start_ip = Inl msg) \<or> (\<exists>msg. parse_address lib end_ip = Inl msg)"
  shows "sweep_ip_range lib subnet start_ip end_ip = Inl invalid_range_msg"
proof -
  have "get_ip_range lib start_ip end_ip subnet = None"
    using assms(3) by (auto simp: get_ip_range_def split: sum.splits)
  then show ?thesis using assms(1,2) by (simp add: sweep_ip_range_def)
qed

lemma malformed_network_rejected:
  assumes "start_ip \<noteq> []" "end_ip \<noteq> []" "split_network lib subnet = Inl msg"
  shows "start_sweep lib subnet start_ip end_ip cnt timeout out0 results0 =
         Inl (showerror ''Invalid Input'' invalid_range_msg)"
proof -
  have "get_ip_range lib start_ip end_ip subnet = None"
    using assms(3) by (simp add: get_ip_range_def ip_network_def)
  then have "sweep_ip_range lib subnet start_ip end_ip = Inl invalid_range_msg"
    using assms(1,2) by (simp add: sweep_ip_range_def)
  then show ?thesis by (rule start_sweep_rejected)
qed

lemma malformed_network_unbounded:
  assumes "split_network lib subnet = Inl msg"
  shows "start_sweep lib subnet [] [] cnt timeout out0 results0 = Inl (showerror ''Invalid Input'' msg)"
  using assms by (simp add: start_sweep_def sweep_ip_range_def ip_network_def)

text \<open>
  \<^bold>\<open>C5\<close> (as amended). With both bounds given, if one of them does not parse as an address,
  or both parse and \<^verbatim>\<open>start > end\<close>, then \<^verbatim>\<open>start_sweep\<close> ends in the error dialog with the
  text of \<^verbatim>\<open>ValueError("Invalid IP range within subnet.")\<close>, and no sweep state comes to exist:
  no probe is issued. The error is not one of its own: every bounded specification whose
  network text is malformed ends in the same dialog (and so does one with no host between
  its bounds, see C6).
\<close>

theorem invalid_bounds_rejected:
  assumes "start_ip \<noteq> []" "end_ip \<noteq> []"
    and "(\<exists>msg. parse_address lib start_ip = Inl msg) \<or>
         (\<exists>msg. parse_address lib end_ip = Inl msg) \<or>
         (\<exists>start end. parse_address lib start_ip = Inr start \<and> parse_address lib end_ip = Inr end \<and>
            address_gt start end = Inr True)"
  shows "start_sweep lib subnet start_ip end_ip cnt timeout out0 results0 =
           Inl (showerror ''Invalid Input'' invalid_range_msg) \<and>
         (\<forall>subnet' start_ip' end_ip'.
            start_ip' \<noteq> [] \<and> end_ip' \<noteq> [] \<and> (\<exists>msg. split_network lib subnet' = Inl msg) \<longrightarrow>
            start_sweep lib subnet' start_ip' end_ip' cnt timeout out0 results0 =
            start_sweep lib subnet start_ip end_ip cnt timeout out0 results0)"
proof -
  have "r = []" if "get_ip_range lib start_ip end_ip subnet = Some r" for r
  proof -
    from that obtain net start "end" where
      p: "parse_address lib start_ip = Inr start" "parse_address lib end_ip = Inr end"
      and sel: "select_range start end (hosts net) = Inr r"
      using get_ip_range_Some by blast
    from p assms(3) have "address_gt start end = Inr True" by auto
    then have "\<forall>a \<in> set (hosts net). between start a end \<noteq> Inr True"
      by (simp add: gt_not_between)
    then show ?thesis using sel select_range_none_between by blast
  qed
  then have "sweep_ip_range lib subnet start_ip end_ip = Inl invalid_range_msg"
    using assms(1,2) by (rule bounded_rejected[rotated 2])
  then have 1: "start_sweep lib subnet start_ip end_ip cnt timeout out0 results0 =
           Inl (showerror ''Invalid Input'' invalid_range_msg)"
    by (rule start_sweep_rejected)
  have "start_sweep lib subnet' start_ip' end_ip' cnt timeout out0 results0 =
           Inl (showerror ''Invalid Input'' invalid_range_msg)"
    if "start_ip' \<noteq> []" "end_ip' \<noteq> []" "\<exists>msg. split_network lib subnet' = Inl msg"
    for subnet' start_ip' end_ip'
    using that malformed_network_rejected by blast
  with 1 show ?thesis by simp
qed

lemma demo_reject_reversed:
  "start_sweep demo_lib ''192.168.1.0/30'' ''192.168.1.2'' ''192.168.1.1'' 1 1000 [] [] =
     Inl (showerror ''Invalid Input'' invalid_range_msg)"
  by (simp add: start_sweep_def sweep_ip_range_def get_ip_range_def demo_net30 demo_hosts30
      demo_parse_simps between_def address_le_def address_lt_def address_eq_def address_class_sel address_class_eq)

lemma demo_not_a_subnet:
  "split_network demo_lib ''not-a-subnet'' = Inl (not_a_network ''not-a-subnet'')"
  by (simp add: demo_lib_def demo_networks_def)

text \<open>
  \<^bold>\<open>C5\<close> as stated fails: on 192.168.1.0/30 the reversed bounds 192.168.1.2 to 192.168.1.1
  give the very result that the text \<^verbatim>\<open>not-a-subnet\<close>, which is no network, gives with the
  bounds 192.168.1.1 to 192.168.1.2 in their right order; without bounds that text gives the
  library's own message.
\<close>

theorem invalid_bounds_distinct_counterexample:
  "start_sweep demo_lib ''192.168.1.0/30'' ''192.168.1.2'' ''192.168.1.1'' 1 1000 [] [] =
   start_sweep demo_lib ''not-a-subnet'' ''192.168.1.1'' ''192.168.1.2'' 1 1000 [] [] \<and>
   start_sweep demo_lib ''not-a-subnet'' ''192.168.1.1'' ''192.168.1.2'' 1 1000 [] [] =
     Inl (showerror ''Invalid Input'' invalid_range_msg) \<and>
   split_network demo_lib ''not-a-subnet'' = Inl (not_a_network ''not-a-subnet'') \<and>
   start_sweep demo_lib ''not-a-subnet'' [] [] 1 1000 [] [] =
     Inl (showerror ''Invalid Input'' (not_a_network ''not-a-subnet''))"
  using malformed_network_rejected[OF _ _ demo_not_a_subnet, of "''192.168.1.1''" "''192.168.1.2''" 1 1000 "[]" "[]"]
    malformed_network_unbounded[OF demo_not_a_subnet, of 1 1000 "[]" "[]"]
  by (simp add: demo_reject_reversed demo_not_a_subnet)

text \<open>The scenario of the specification: 10.0.0.0/24 with start 10.0.0.250 and end
  10.0.0.5; the same network with a start bound that is not an address; and a text that is
  no network, with bounds in their right order.\<close>

theorem invalid_bounds_rejected_witness:
  "''10.0.0.250'' \<noteq> [] \<and> ''10.0.0.5'' \<noteq> [] \<and>
   parse_address demo_lib ''10.0.0.250'' = Inr (address_class V4 167772410) \<and>
   parse_address demo_lib ''10.0.0.5'' = Inr (address_class V4 167772165) \<and>
   address_gt (address_class V4 167772410) (address_class V4 167772165) = Inr True \<and>
   start_sweep demo_lib ''10.0.0.0/24'' ''10.0.0.250'' ''10.0.0.5'' 1 100 [] [] =
     Inl (showerror ''Invalid Input'' invalid_range_msg) \<and>
   parse_address demo_lib ''abc'' = Inl (not_an_address ''abc'') \<and>
   start_sweep demo_lib ''10.0.0.0/24'' ''abc'' ''10.0.0.5'' 1 100 [] [] =
     Inl (showerror ''Invalid Input'' invalid_range_msg) \<and>
   split_network demo_lib ''not-a-subnet'' = Inl (not_a_network ''not-a-subnet'') \<and>
   start_sweep demo_lib ''not-a-subnet'' ''10.0.0.5'' ''10.0.0.250'' 1 100 [] [] =
   start_sweep demo_lib ''10.0.0.0/24'' ''10.0.0.250'' ''10.0.0.5'' 1 100 [] []"
proof -
  have gt: "address_gt (address_class V4 167772410) (address_class V4 167772165) = Inr True"
    by (simp add: address_gt_def address_lt_def address_eq_def address_class_def)
  have ne: "''10.0.0.250'' \<noteq> []" "''10.0.0.5'' \<noteq> []" "''abc'' \<noteq> []" by simp_all
  have rev: "(\<exists>msg. parse_address demo_lib ''10.0.0.250'' = Inl msg) \<or>
         (\<exists>msg. parse_address demo_lib ''10.0.0.5'' = Inl msg) \<or>
         (\<exists>start end. parse_address demo_lib ''10.0.0.250'' = Inr start \<and>
            parse_address demo_lib ''10.0.0.5'' = Inr end \<and> address_gt start end = Inr True)"
    by (simp add: demo_parse_simps gt)
  have bad: "(\<exists>msg. parse_address demo_lib ''abc'' = Inl msg) \<or>
         (\<exists>msg. parse_address demo_lib ''10.0.0.5'' = Inl msg) \<or>
         (\<exists>start end. parse_address demo_lib ''abc'' = Inr start \<and>
            parse_address demo_lib ''10.0.0.5'' = Inr end \<and> address_gt start end = Inr True)"
    by (simp add: demo_parse_simps)
  note r = invalid_bounds_rejected[OF ne(1,2) rev, of "''10.0.0.0/24''" 1 100 "[]" "[]"]
  note b = invalid_bounds_rejected[OF ne(3,2) bad, of "''10.0.0.0/24''" 1 100 "[]" "[]"]
  from r have "start_sweep demo_lib ''not-a-subnet'' ''10.0.0.5'' ''10.0.0.250'' 1 100 [] [] =
      start_sweep demo_lib ''10.0.0.0/24'' ''10.0.0.250'' ''10.0.0.5'' 1 100 [] []"
    using demo_not_a_subnet ne by blast
  with r b show ?thesis by (simp add: demo_parse_simps gt demo_not_a_subnet)
qed

subsection \<open>Bounds with no host in between\<close>

lemma between_True_within: "between start a end = Inr True \<Longrightarrow> within start end a"
  by (auto simp: between_def within_def address_le_def address_lt_def
      split: sum.splits bool.splits if_splits)

lemma demo_reject_empty:
  "start_sweep demo_lib ''192.168.1.0/30'' ''192.168.1.100'' ''192.168.1.200'' 1 1000 [] [] =
     Inl (showerror ''Invalid Input'' invalid_range_msg)"
  by (simp add: start_sweep_def sweep_ip_range_def get_ip_range_def demo_net30 demo_hosts30
      demo_parse_simps between_def address_le_def address_lt_def address_eq_def address_class_sel address_class_eq)

text \<open>
  \<^bold>\<open>C6\<close> (as amended). With both bounds given and parsed, if no usable host of the network lies
  in \<open>[start, end]\<close>, \<^verbatim>\<open>start_sweep\<close> ends in the error dialog instead of sweeping an empty
  range; the error is the same \<^verbatim>\<open>ValueError("Invalid IP range within subnet.")\<close> that an
  unparsable bound raises, so the two cases give the caller the same outcome.
\<close>

theorem empty_range_same_error:
  assumes "start_ip \<noteq> []" "end_ip \<noteq> []"
    and "ip_network lib subnet = Inr net"
    and "parse_address lib start_ip = Inr start" "parse_address lib end_ip = Inr end"
    and "\<forall>a \<in> set (hosts net). \<not> within start end a"
  shows "start_sweep lib subnet start_ip end_ip cnt timeout out0 results0 =
           Inl (showerror ''Invalid Input'' invalid_range_msg) \<and>
         (\<forall>bad. bad \<noteq> [] \<and> (\<exists>msg. parse_address lib bad = Inl msg) \<longrightarrow>
            start_sweep lib subnet bad end_ip cnt timeout out0 results0 =
            start_sweep lib subnet start_ip end_ip cnt timeout out0 results0)"
proof -
  have "r = []" if "get_ip_range lib start_ip end_ip subnet = Some r" for r
  proof -
    from that assms(3-5) have sel: "select_range start end (hosts net) = Inr r"
      by (auto dest!: get_ip_range_Some)
    have "\<forall>a \<in> set (hosts net). between start a end \<noteq> Inr True"
      using assms(6) between_True_within by blast
    then show ?thesis using sel select_range_none_between by blast
  qed
  then have "sweep_ip_range lib subnet start_ip end_ip = Inl invalid_range_msg"
    using assms(1,2) by (rule bounded_rejected[rotated 2])
  then have 1: "start_sweep lib subnet start_ip end_ip cnt timeout out0 results0 =
           Inl (showerror ''Invalid Input'' invalid_range_msg)"
    by (rule start_sweep_rejected)
  have "start_sweep lib subnet bad end_ip cnt timeout out0 results0 =
           Inl (showerror ''Invalid Input'' invalid_range_msg)"
    if "bad \<noteq> []" "\<exists>msg. parse_address lib bad = Inl msg" for bad
    using that assms(2) by (intro start_sweep_rejected unparsable_bound_rejected) auto
  with 1 show ?thesis by simp
qed

text \<open>
  \<^bold>\<open>C6\<close> as stated fails: on 192.168.1.0/30 the bounds 192.168.1.100 to 192.168.1.200 (no host
  in between), the reversed bounds 192.168.1.2 to 192.168.1.1 and the unparsable start bound
  \<^verbatim>\<open>abc\<close> all give the same result.
\<close>

theorem empty_range_distinguishable_counterexample:
  "start_sweep demo_lib ''192.168.1.0/30'' ''192.168.1.100'' ''192.168.1.200'' 1 1000 [] [] =
   start_sweep demo_lib ''192.168.1.0/30'' ''192.168.1.2'' ''192.168.1.1'' 1 1000 [] [] \<and>
   start_sweep demo_lib ''192.168.1.0/30'' ''192.168.1.100'' ''192.168.1.200'' 1 1000 [] [] =
   start_sweep demo_lib ''192.168.1.0/30'' ''abc'' ''192.168.1.1'' 1 1000 [] []"
  by (simp add: demo_reject_empty demo_reject_reversed)
     (simp add: start_sweep_def sweep_ip_range_def get_ip_range_def demo_net30 demo_parse_simps)

text \<open>192.168.1.0/30 with the bounds 192.168.1.100 and 192.168.1.200.\<close>

theorem empty_range_same_error_witness:
  "''192.168.1.100'' \<noteq> [] \<and> ''192.168.1.200'' \<noteq> [] \<and>
   ip_network demo_lib ''192.168.1.0/30'' = Inr (make_network (address_class V4 3232235776) 30) \<and>
   parse_address demo_lib ''192.168.1.100'' = Inr (address_class V4 3232235876) \<and>
   parse_address demo_lib ''192.168.1.200'' = Inr (address_class V4 3232235976) \<and>
   filter (within (address_class V4 3232235876) (address_class V4 3232235976))
     (hosts (make_network (address_class V4 3232235776) 30)) = [] \<and>
   start_sweep demo_lib ''192.168.1.0/30'' ''192.168.1.100'' ''192.168.1.200'' 1 1000 [] [] =
     Inl (showerror ''Invalid Input'' invalid_range_msg) \<and>
   start_sweep demo_lib ''192.168.1.0/30'' ''abc'' ''192.168.1.200'' 1 1000 [] [] =
   start_sweep demo_lib ''192.168.1.0/30'' ''192.168.1.100'' ''192.168.1.200'' 1 1000 [] []"
proof -
  have out: "\<forall>a \<in> set (hosts (make_network (address_class V4 3232235776) 30)).
      \<not> within (address_class V4 3232235876) (address_class V4 3232235976) a"
    by (simp add: demo_hosts30 within_def address_eq_def address_class_sel address_class_eq)
  have ne: "''192.168.1.100'' \<noteq> []" "''192.168.1.200'' \<noteq> []" by simp_all
  note inst = empty_range_same_error[OF ne demo_net30 demo_parse_simps(5) demo_parse_simps(6) out,
      of 1 1000 "[]" "[]"]
  from inst have "start_sweep demo_lib ''192.168.1.0/30'' ''abc'' ''192.168.1.200'' 1 1000 [] [] =
     start_sweep demo_lib ''192.168.1.0/30'' ''192.168.1.100'' ''192.168.1.200'' 1 1000 [] []"
    using demo_parse_simps(7) by (metis list.distinct(1))
  with inst out show ?thesis by (simp add: demo_net30 demo_parse_simps filter_empty_conv)
qed

subsection \<open>Bounds outside the network\<close>

lemma between_same_version:
  "version start = version a \<Longrightarrow> version end = version a \<Longrightarrow>
   between start a end = Inr (within start end a)"
  by (auto simp: between_def within_def address_le_def address_lt_def split: bool.splits)

lemma select_range_same_version:
  assumes "\<forall>a \<in> set as. version a = v" "version start = v" "version end = v"
  shows "select_range start end as = Inr (filter (within start end) as)"
  using assms by (induction as) (simp_all add: between_same_version)

lemma demo_clip:
  "filter (within (address_class V4 3232235777) (address_class V4 3232235976))
      (hosts (make_network (address_class V4 3232235776) 30)) =
     [address_class V4 3232235777, address_class V4 3232235778]"
  by (simp add: demo_hosts30 within_def address_eq_def address_class_sel address_class_eq)

text \<open>
  \<^bold>\<open>C7\<close> (as amended). With both bounds given and parsed, of the family of the network, the
  specification is rejected before any probe exactly when no usable host lies in
  \<open>[start, end]\<close>; otherwise the sweep starts on the usable hosts within the interval. A bound
  outside the network's host range only clips the range.
\<close>

theorem bounds_clip_range:
  assumes "start_ip \<noteq> []" "end_ip \<noteq> []"
    and "ip_network lib subnet = Inr net"
    and "parse_address lib start_ip = Inr start" "parse_address lib end_ip = Inr end"
    and "version start = net_version net" "version end = net_version net"
  shows "(filter (within start end) (hosts net) = [] \<longrightarrow>
            start_sweep lib subnet start_ip end_ip cnt timeout out0 results0 =
              Inl (showerror ''Invalid Input'' invalid_range_msg)) \<and>
         (filter (within start end) (hosts net) \<noteq> [] \<longrightarrow>
            (\<exists>s0. start_sweep lib subnet start_ip end_ip cnt timeout out0 results0 = Inr s0 \<and>
                  to_submit s0 = filter (within start end) (hosts net)))"
proof -
  have "select_range start end (hosts net) = Inr (filter (within start end) (hosts net))"
    using assms(6,7) by (intro select_range_same_version[where v = "net_version net"])
      (simp_all add: hosts_version)
  then have "get_ip_range lib start_ip end_ip subnet = Some (filter (within start end) (hosts net))"
    using assms(3-5) by (simp add: get_ip_range_def)
  then show ?thesis
    using assms(1,2) by (simp add: start_sweep_def sweep_ip_range_def)
qed

text \<open>
  \<^bold>\<open>C7\<close> as stated fails: on 192.168.1.0/30 (hosts 192.168.1.1 and 192.168.1.2) the end bound
  192.168.1.200 is no host of the network, and the sweep starts all the same, on both hosts.
\<close>

theorem bound_outside_rejected_counterexample:
  "parse_address demo_lib ''192.168.1.200'' = Inr (address_class V4 3232235976) \<and>
   address_class V4 3232235976 \<notin> set (hosts (make_network (address_class V4 3232235776) 30)) \<and>
   (case start_sweep demo_lib ''192.168.1.0/30'' ''192.168.1.1'' ''192.168.1.200'' 1 1000 [] [] of
      Inl d \<Rightarrow> False
    | Inr s0 \<Rightarrow> to_submit s0 = [address_class V4 3232235777, address_class V4 3232235778])"
  by (simp add: start_sweep_def sweep_ip_range_def get_ip_range_def demo_net30 demo_hosts30
      demo_parse_simps between_def address_le_def address_lt_def address_eq_def address_class_sel address_class_eq)

text \<open>The same input, through the amended statement.\<close>

theorem bounds_clip_range_witness:
  "''192.168.1.1'' \<noteq> [] \<and> ''192.168.1.200'' \<noteq> [] \<and>
   ip_network demo_lib ''192.168.1.0/30'' = Inr (make_network (address_class V4 3232235776) 30) \<and>
   parse_address demo_lib ''192.168.1.1'' = Inr (address_class V4 3232235777) \<and>
   parse_address demo_lib ''192.168.1.200'' = Inr (address_class V4 3232235976) \<and>
   version (address_class V4 3232235777) = net_version (make_network (address_class V4 3232235776) 30) \<and>
   version (address_class V4 3232235976) = net_version (make_network (address_class V4 3232235776) 30) \<and>
   filter (within (address_class V4 3232235777) (address_class V4 3232235976))
      (hosts (make_network (address_class V4 3232235776) 30)) \<noteq> [] \<and>
   (\<exists>s0. start_sweep demo_lib ''192.168.1.0/30'' ''192.168.1.1'' ''192.168.1.200'' 1 1000 [] [] = Inr s0 \<and>
         to_submit s0 = [address_class V4 3232235777, address_class V4 3232235778])"
proof -
  have ne: "''192.168.1.1'' \<noteq> []" "''192.168.1.200'' \<noteq> []" by simp_all
  have v: "version (address_class V4 3232235777) = net_version (make_network (address_class V4 3232235776) 30)"
    "version (address_class V4 3232235976) = net_version (make_network (address_class V4 3232235776) 30)"
    by (simp_all add: demo_net30_version) (simp_all add: address_class_sel)
  note inst = bounds_clip_range[OF ne demo_net30 demo_parse_simps(3) demo_parse_simps(6) v,
      of 1 1000 "[]" "[]"]
  from inst v show ?thesis
    by (simp add: demo_clip demo_net30 demo_parse_simps)
qed

subsection \<open>The unbounded range\<close>

lemma unbounded_range:
  assumes "\<not> (start_ip \<noteq> [] \<and> end_ip \<noteq> [])" "split_network lib subnet = Inr (addr, p)"
  shows "sweep_ip_range lib subnet start_ip end_ip = Inr (hosts (make_network addr p))"
  using assms by (auto simp: sweep_ip_range_def ip_network_def)

text \<open>
  \<^bold>\<open>C4\<close> (as amended). Without a bound pair, the range is \<^verbatim>\<open>hosts()\<close> of the network: all
  addresses of a network of one or two addresses; for a larger IPv4 network every address but
  the network and the broadcast address (\<open>num_addresses - 2\<close> of them); for a larger IPv6
  network every address but the network address (\<open>num_addresses - 1\<close> of them, the last
  address of the network included).
\<close>

theorem unbounded_range_hosts:
  assumes "\<not> (start_ip \<noteq> [] \<and> end_ip \<noteq> [])"
    and "split_network lib subnet = Inr (addr, p)"
    and "ip_int addr < 2 ^ max_prefixlen (version addr)" "p \<le> max_prefixlen (version addr)"
  shows "\<exists>r. sweep_ip_range lib subnet start_ip end_ip = Inr r \<and>
     (let net = make_network addr p;
          network = ip_int (network_address net);
          broadcast = broadcast_address net
      in num_addresses net = 2 ^ (max_prefixlen (version addr) - p) \<and>
         (if num_addresses net \<le> 2
            then map ip_int r = [network ..< broadcast + 1] \<and> length r = num_addresses net
          else if version addr = V4
            then map ip_int r = [network + 1 ..< broadcast] \<and> length r = num_addresses net - 2
          else map ip_int r = [network + 1 ..< broadcast + 1] \<and> length r = num_addresses net - 1))"
proof -
  define net where "net = make_network addr p"
  define W where "W = max_prefixlen (version addr)"
  define n where "n = ip_int (network_address net)"
  define b where "b = broadcast_address net"
  define N where "N = num_addresses net"
  define hs where "hs = map ip_int (hosts net)"
  have r: "sweep_ip_range lib subnet start_ip end_ip = Inr (hosts net)"
    unfolding net_def using assms(1,2) by (rule unbounded_range)
  have num: "N = 2 ^ (W - p)"
    unfolding N_def net_def W_def using assms(3,4) by (rule num_addresses_make_network)
  have bc: "b = n + (2 ^ (W - p) - 1)"
    unfolding b_def n_def net_def W_def using assms(3,4) by (rule broadcast_make_network)
  have hs: "hs = (if Suc p = W then [n ..< b + 1] else if p = W then [n]
                  else if version addr = V4 then [n + 1 ..< b] else [n + 1 ..< b + 1])"
    unfolding hs_def hosts_ints n_def b_def W_def net_def by (simp only: make_network_fields Let_def)
  have pW: "p \<le> W" unfolding W_def by (rule assms(4))
  have main: "if N \<le> 2 then hs = [n ..< b + 1] \<and> length hs = N
        else if version addr = V4 then hs = [n + 1 ..< b] \<and> length hs = N - 2
        else hs = [n + 1 ..< b + 1] \<and> length hs = N - 1"
  proof -
    consider (full) "p = W" | (pair) "Suc p = W" | (more) "Suc (Suc p) \<le> W"
      using pW by linarith
    then show ?thesis
    proof cases
      case full
      then have "N = 1" "b = n" "hs = [n]" by (simp_all add: num bc hs)
      then show ?thesis by simp
    next
      case pair
      then have "W - p = 1" by simp
      then have "N = 2" "b = n + 1" by (simp_all add: num bc)
      moreover have "hs = [n ..< b + 1]" using pair by (simp add: hs del: upt_Suc)
      ultimately show ?thesis by simp
    next
      case more
      then obtain k where k: "W - p = Suc (Suc k)"
        by (metis Suc_diff_Suc Suc_le_lessD Suc_lessD)
      have "(2::nat) ^ Suc (Suc k) = 4 * 2 ^ k" by simp
      moreover have "(1::nat) \<le> 2 ^ k" by simp
      ultimately have big: "4 \<le> N" unfolding num k by linarith
      have Nb: "b = n + (N - 1)" by (simp add: bc num)
      from more have ne: "Suc p \<noteq> W" "p \<noteq> W" by simp_all
      have "hs = (if version addr = V4 then [n + 1 ..< b] else [n + 1 ..< b + 1])"
        using ne by (simp add: hs del: upt_Suc)
      then show ?thesis using big Nb by (simp del: upt_Suc)
    qed
  qed
  have len: "length hs = length (hosts net)" by (simp add: hs_def)
  from r num main have
    "sweep_ip_range lib subnet start_ip end_ip = Inr (hosts net) \<and>
     (N = 2 ^ (W - p) \<and>
      (if N \<le> 2 then hs = [n ..< b + 1] \<and> length (hosts net) = N
        else if version addr = V4 then hs = [n + 1 ..< b] \<and> length (hosts net) = N - 2
        else hs = [n + 1 ..< b + 1] \<and> length (hosts net) = N - 1))"
    by (simp only: len)
  then show ?thesis
    unfolding Let_def N_def hs_def n_def b_def net_def W_def by (rule exI)
qed

text \<open>192.168.1.0/30: four addresses, two hosts.\<close>

theorem unbounded_range_hosts_witness:
  "\<not> (([]::string) \<noteq> [] \<and> ([]::string) \<noteq> []) \<and>
   split_network demo_lib ''192.168.1.0/30'' = Inr (address_class V4 3232235776, 30) \<and>
   ip_int (address_class V4 3232235776) < 2 ^ max_prefixlen (version (address_class V4 3232235776)) \<and>
   30 \<le> max_prefixlen (version (address_class V4 3232235776)) \<and>
   (\<exists>r. sweep_ip_range demo_lib ''192.168.1.0/30'' [] [] = Inr r \<and>
     (let net = make_network (address_class V4 3232235776) 30;
          network = ip_int (network_address net);
          broadcast = broadcast_address net
      in num_addresses net = 4 \<and> map ip_int r = [network + 1 ..< broadcast] \<and> length r = 2))"
proof -
  have h: "ip_int (address_class V4 3232235776) < 2 ^ max_prefixlen (version (address_class V4 3232235776))"
    "30 \<le> max_prefixlen (version (address_class V4 3232235776))"
    by (simp_all add: address_class_def)
  have n: "num_addresses (make_network (address_class V4 3232235776) 30) = 4"
    by (subst num_addresses_make_network) (simp_all add: address_class_def)
  show ?thesis
    using unbounded_range_hosts[of "[]" "[]" demo_lib "''192.168.1.0/30''" "address_class V4 3232235776" 30, OF _ demo_split_simps(1) h]
    by (simp add: demo_split_simps n Let_def address_class_sel del: upt_Suc)
qed

text \<open>
  \<^bold>\<open>C4\<close> as stated fails on IPv6: fe80::/126 has four addresses, and the range holds fe80::3,
  the last address of the network (its \<^verbatim>\<open>broadcast_address\<close>).
\<close>

theorem broadcast_excluded_counterexample:
  "sweep_ip_range demo_lib ''fe80::/126'' [] [] =
     Inr [address_class V6 338288524927261089654018896841347694593,
          address_class V6 338288524927261089654018896841347694594,
          address_class V6 338288524927261089654018896841347694595] \<and>
   num_addresses (make_network (address_class V6 338288524927261089654018896841347694592) 126) = 4 \<and>
   broadcast_address (make_network (address_class V6 338288524927261089654018896841347694592) 126) =
     338288524927261089654018896841347694595"
proof -
  have h: "ip_int (address_class V6 338288524927261089654018896841347694592)
             < 2 ^ max_prefixlen (version (address_class V6 338288524927261089654018896841347694592))"
    "126 \<le> max_prefixlen (version (address_class V6 338288524927261089654018896841347694592))"
    by (simp_all add: address_class_def)
  have 1: "sweep_ip_range demo_lib ''fe80::/126'' [] [] =
     Inr [address_class V6 338288524927261089654018896841347694593,
          address_class V6 338288524927261089654018896841347694594,
          address_class V6 338288524927261089654018896841347694595]"
    by (simp add: sweep_ip_range_def ip_network_def demo_split_simps demo_hosts126)
  have 2: "num_addresses (make_network (address_class V6 338288524927261089654018896841347694592) 126) = 4"
    by (subst num_addresses_make_network) (simp_all add: address_class_def)
  have 3: "broadcast_address (make_network (address_class V6 338288524927261089654018896841347694592) 126) =
     338288524927261089654018896841347694595"
    by (simp add: broadcast_make_network[OF h] make_network_int[OF h])
       (simp add: address_class_def push_bit_eq_mult drop_bit_eq_div)
  from 1 2 3 show ?thesis by simp
qed


section \<open>Properties of the sweep\<close>

subsection \<open>The steps, case by case\<close>

lemma sweep_step_cases [consumes 1, case_names switch submit collect complete take finish]:
  assumes "sweep_step probe s s'"
  obtains
    "phase s = Submitting" "to_submit s = []" "s' = s\<lparr>phase := Collecting\<rparr>"
  | a rest where "phase s = Submitting" "to_submit s = a # rest" "s' = submit a (s\<lparr>to_submit := rest\<rparr>)"
  | j where "phase s = Collecting" "yielded s < length (futures s)" "j < length (finished s)"
      "s' = collect j s"
  | "phase s = Collecting" "\<not> yielded s < length (futures s)" "work_queue s = []"
      "list_all (\<lambda>t. t = None) (threads s)" "s' = complete s"
  | i a queue where "i < length (threads s)" "threads s ! i = None" "work_queue s = a # queue"
      "s' = s\<lparr>work_queue := queue, threads := (threads s)[i := Some a]\<rparr>"
  | i a where "i < length (threads s)" "threads s ! i = Some a"
      "s' = s\<lparr>threads := (threads s)[i := None], finished := finished s @ [probe a],
              idle_semaphore := Suc (idle_semaphore s)\<rparr>"
proof -
  from assms have "s' \<in> set (main_steps s) \<or>
      (\<exists>i < length (threads s). s' \<in> set (worker_steps probe s i))"
    by (auto simp: sweep_step_def next_states_def)
  then show thesis
  proof
    assume "s' \<in> set (main_steps s)"
    then show thesis
      using that(1-4)
      by (auto simp: main_steps_def split: phase.splits list.splits if_splits)
  next
    assume "\<exists>i < length (threads s). s' \<in> set (worker_steps probe s i)"
    then obtain i where i: "i < length (threads s)" "s' \<in> set (worker_steps probe s i)" by blast
    then show thesis
    proof (cases "threads s ! i")
      case None
      with i show thesis
        using that(5)[of i] by (cases "work_queue s") (simp_all add: worker_steps_def)
    next
      case (Some a)
      with i show thesis
        using that(6)[of i a] by (simp add: worker_steps_def)
    qed
  qed
qed

lemma running_of_length: "length (running_of ts) = length (filter (\<lambda>t. t \<noteq> None) ts)"
  by (induction ts rule: running_of.induct) simp_all

lemma running_of_take:
  "i < length ts \<Longrightarrow> ts ! i = None \<Longrightarrow>
   mset (running_of (ts[i := Some a])) = add_mset a (mset (running_of ts))"
proof (induction ts arbitrary: i rule: running_of.induct)
  case 1
  then show ?case by simp
next
  case (2 ts)
  then show ?case by (cases i) simp_all
next
  case (3 b ts)
  then show ?case by (cases i) simp_all
qed

lemma running_of_finish:
  "i < length ts \<Longrightarrow> ts ! i = Some a \<Longrightarrow>
   add_mset a (mset (running_of (ts[i := None]))) = mset (running_of ts)"
proof (induction ts arbitrary: i rule: running_of.induct)
  case 1
  then show ?case by simp
next
  case (2 ts)
  then show ?case by (cases i) simp_all
next
  case (3 b ts)
  then show ?case by (cases i) simp_all
qed

lemma running_of_idle: "list_all (\<lambda>t. t = None) ts \<Longrightarrow> running_of ts = []"
  by (induction ts rule: running_of.induct) simp_all

lemma running_of_append_None: "running_of (ts @ [None]) = running_of ts"
  by (induction ts rule: running_of.induct) simp_all

lemma in_flight_running: "in_flight s = length (running_of (threads s))"
  by (simp add: in_flight_def running_of_length)

lemma results_of_append: "results_of (xs @ ys) = results_of xs @ results_of ys"
  by (induction xs rule: results_of.induct) simp_all

subsection \<open>Invariants\<close>

lemma mset_remove_nth:
  "j < length xs \<Longrightarrow> add_mset (xs ! j) (mset (take j xs @ drop (Suc j) xs)) = mset xs"
  by (metis add_mset_add_single id_take_nth_drop mset.simps(2) mset_append union_mset_add_mset_right)

lemma accounted_sizes:
  assumes "accounted probe rng out0 s"
  shows "length (futures s) =
         length (work_queue s) + in_flight s + length (finished s) + yielded s"
proof -
  from assms have "size (image_mset probe (mset (futures s))) =
      size (image_mset probe (mset (work_queue s) + mset (running_of (threads s))) +
       mset (finished s) + mset (probe_results out0 s))"
    and "yielded s = length (probe_results out0 s)"
    by (simp_all add: accounted_def)
  then show ?thesis by (simp add: in_flight_running)
qed

lemma accounted_step:
  assumes "sweep_step probe s s'" "accounted probe rng out0 s"
  shows "accounted probe rng out0 s'"
  using assms
proof (cases rule: sweep_step_cases)
  case switch
  with assms(2) show ?thesis by (simp add: accounted_def probe_results_def)
next
  case (submit a rest)
  with assms(2) show ?thesis
    by (simp add: accounted_def probe_results_def submit_def adjust_thread_count_def
        running_of_append_None)
next
  case (collect j)
  obtain a is_up where f: "finished s ! j = (a, is_up)" by (cases "finished s ! j")
  have m: "add_mset (a, is_up) (mset (take j (finished s) @ drop (Suc j) (finished s))) = mset (finished s)"
    using mset_remove_nth[OF collect(3)] f by simp
  from assms(2) have fut: "image_mset probe (mset (futures s)) =
       image_mset probe (mset (work_queue s) + mset (running_of (threads s))) +
       mset (finished s) + mset (probe_results out0 s)"
    by (simp add: accounted_def)
  from assms(2) have rest: "rng = futures s @ to_submit s" "phase s = Submitting \<or> to_submit s = []"
    "length out0 \<le> length (output_text s)" "yielded s = length (probe_results out0 s)"
    "responsive_hosts s = map fst (filter snd (probe_results out0 s))"
    by (simp_all add: accounted_def)
  show ?thesis
  proof (cases is_up)
    case True
    with collect f rest fut m[symmetric] show ?thesis
      by (simp add: accounted_def collect_def probe_results_def results_of_append)
  next
    case False
    with collect f rest fut m[symmetric] show ?thesis
      by (simp add: accounted_def collect_def probe_results_def results_of_append)
  qed
next
  case complete
  with assms(2) show ?thesis
    by (simp add: accounted_def complete_def probe_results_def results_of_append running_of_idle)
next
  case (take i a queue)
  with assms(2) show ?thesis
    by (simp add: accounted_def probe_results_def running_of_take)
next
  case (finish i a)
  from running_of_finish[OF finish(1,2)]
  have "mset (running_of (threads s)) = add_mset a (mset (running_of ((threads s)[i := None])))"
    by simp
  with finish assms(2) show ?thesis
    by (simp add: accounted_def probe_results_def)
qed

lemma collect_sel:
  "phase (collect j s) = phase s" "to_submit (collect j s) = to_submit s"
  "futures (collect j s) = futures s" "max_workers (collect j s) = max_workers s"
  "work_queue (collect j s) = work_queue s" "idle_semaphore (collect j s) = idle_semaphore s"
  "threads (collect j s) = threads s" "result_list (collect j s) = result_list s"
  "finished (collect j s) = take j (finished s) @ drop (Suc j) (finished s)"
  "yielded (collect j s) = Suc (yielded s)"
  by (simp_all add: collect_def Let_def split: prod.splits)

lemma staffed_step:
  assumes "sweep_step probe s s'" "staffed s" "accounted probe rng out0 s"
  shows "staffed s'"
  using assms(1)
proof (cases rule: sweep_step_cases)
  case switch
  with assms(2) show ?thesis by (auto simp: staffed_def split: if_splits)
next
  case (submit a rest)
  with assms(2) show ?thesis
    by (auto simp: staffed_def submit_def adjust_thread_count_def split: if_splits)
next
  case (collect j)
  with assms(2) show ?thesis
    by (auto simp: staffed_def collect_sel split: if_splits)
next
  case complete
  with assms(2) show ?thesis by (auto simp: staffed_def complete_def split: if_splits)
next
  case (take i a queue)
  with assms(2) show ?thesis by (auto simp: staffed_def split: if_splits)
next
  case (finish i a)
  have "threads s ! i \<in> set (threads s)" using finish(1) by simp
  then have "0 < in_flight s"
    using finish(2) by (auto simp: in_flight_def filter_empty_conv)
  with accounted_sizes[OF assms(3)] have "futures s \<noteq> []" by auto
  with finish assms(2) show ?thesis by (auto simp: staffed_def split: if_splits)
qed

lemma delivered_step:
  assumes "sweep_step probe s s'" "delivered results0 s" "accounted probe rng out0 s"
  shows "delivered results0 s'"
  using assms(1)
proof (cases rule: sweep_step_cases)
  case switch
  with assms(2) show ?thesis by (simp add: delivered_def)
next
  case (submit a rest)
  with assms(2) show ?thesis
    by (simp add: delivered_def submit_def adjust_thread_count_def)
next
  case (collect j)
  with assms(2) show ?thesis
    by (simp add: delivered_def collect_sel)
next
  case complete
  with accounted_sizes[OF assms(3)] have "yielded s = length (futures s)" by simp
  with complete show ?thesis by (simp add: delivered_def complete_def)
next
  case (take i a queue)
  with assms(2) show ?thesis by (auto simp: delivered_def)
next
  case (finish i a)
  with assms(2) show ?thesis by (auto simp: delivered_def)
qed

lemma sweep_measure_step:
  assumes "sweep_step probe s s'"
  shows "Suc (sweep_measure s') = sweep_measure s"
  using assms
proof (cases rule: sweep_step_cases)
  case switch
  then show ?thesis by (simp add: sweep_measure_def in_flight_def phase_rank_def)
next
  case (submit a rest)
  then show ?thesis
    by (simp add: sweep_measure_def in_flight_def phase_rank_def submit_def adjust_thread_count_def)
next
  case (collect j)
  then show ?thesis
    by (simp add: sweep_measure_def in_flight_def phase_rank_def collect_sel)
next
  case complete
  then have "in_flight s = 0"
    by (simp add: in_flight_running running_of_idle)
  with complete show ?thesis
    by (simp add: sweep_measure_def phase_rank_def complete_def) (simp add: in_flight_def)
next
  case (take i a queue)
  from running_of_take[OF take(1,2), of a]
  have "length (running_of ((threads s)[i := Some a])) = Suc (length (running_of (threads s)))"
    by (metis size_add_mset size_mset)
  with take show ?thesis
    by (simp add: sweep_measure_def phase_rank_def in_flight_running)
next
  case (finish i a)
  from running_of_finish[OF finish(1,2)]
  have "Suc (length (running_of ((threads s)[i := None]))) = length (running_of (threads s))"
    by (metis size_add_mset size_mset)
  with finish show ?thesis
    by (simp add: sweep_measure_def phase_rank_def in_flight_running)
qed

lemma max_workers_step: "sweep_step probe s s' \<Longrightarrow> max_workers s' = max_workers s"
  by (cases rule: sweep_step_cases)
     (auto simp: submit_def adjust_thread_count_def collect_sel complete_def)

lemma running_of_empty_idle: "running_of ts = [] \<Longrightarrow> list_all (\<lambda>t. t = None) ts"
  by (induction ts rule: running_of.induct) simp_all

lemma worker_can_step:
  assumes "i < length (threads s)" "worker_steps probe s i \<noteq> []"
  shows "next_states probe s \<noteq> []"
proof -
  have "worker_steps probe s i \<in> set (map (worker_steps probe s) [0 ..< length (threads s)])"
    using assms(1) by simp
  with assms(2) have "concat (map (worker_steps probe s) [0 ..< length (threads s)]) \<noteq> []"
    unfolding concat_eq_Nil_conv by blast
  then show ?thesis by (simp add: next_states_def)
qed

lemma progress:
  assumes "accounted probe rng out0 s" "staffed s" "phase s \<noteq> Complete"
  shows "next_states probe s \<noteq> []"
proof (cases "phase s")
  case Submitting
  then have "main_steps s \<noteq> []" by (simp add: main_steps_def split: list.splits)
  then show ?thesis by (simp add: next_states_def)
next
  case Collecting
  note sizes = accounted_sizes[OF assms(1)]
  show ?thesis
  proof (cases "yielded s < length (futures s)")
    case True
    show ?thesis
    proof (cases "finished s = []")
      case False
      with True Collecting have "main_steps s \<noteq> []" by (simp add: main_steps_def)
      then show ?thesis by (simp add: next_states_def)
    next
      case fin: True
      show ?thesis
      proof (cases "work_queue s = []")
        case False
        from True have "futures s \<noteq> []" by auto
        with assms(2,3) have "0 < length (threads s)" by (simp add: staffed_def)
        moreover from False have "worker_steps probe s 0 \<noteq> []"
          by (simp add: worker_steps_def split: option.splits list.splits)
        ultimately show ?thesis by (rule worker_can_step)
      next
        case q: True
        with True fin sizes have "0 < in_flight s" by simp
        then obtain t where "t \<in> set (threads s)" "t \<noteq> None"
          by (auto simp: in_flight_def filter_empty_conv)
        then obtain i a where "i < length (threads s)" "threads s ! i = Some a"
          by (auto simp: in_set_conv_nth)
        moreover from this have "worker_steps probe s i \<noteq> []"
          by (simp add: worker_steps_def)
        ultimately show ?thesis using worker_can_step by blast
      qed
    qed
  next
    case False
    with sizes have "work_queue s = []" "in_flight s = 0" by simp_all
    then have "work_queue s = []" "list_all (\<lambda>t. t = None) (threads s)"
      by (simp_all add: in_flight_running running_of_empty_idle)
    with False Collecting have "main_steps s \<noteq> []" by (simp add: main_steps_def)
    then show ?thesis by (simp add: next_states_def)
  qed
next
  case Complete
  with assms(3) show ?thesis by simp
qed

lemma complete_terminal:
  assumes "phase s = Complete" "threads s = []"
  shows "next_states probe s = []"
  using assms by (simp add: next_states_def main_steps_def)

lemma reachable_invariants:
  assumes "reachable probe s0 s"
    and "accounted probe rng out0 s0" "staffed s0" "delivered results0 s0"
  shows "accounted probe rng out0 s \<and> staffed s \<and> delivered results0 s \<and>
         max_workers s = max_workers s0"
  using assms(1) unfolding reachable_def
proof (induction rule: rtranclp_induct)
  case base
  with assms(2-4) show ?case by simp
next
  case (step s s')
  then have inv: "accounted probe rng out0 s" "staffed s" "delivered results0 s"
    and mw: "max_workers s = max_workers s0" by simp_all
  from step(2) inv mw show ?case
    by (simp add: accounted_step[OF step(2) inv(1)] staffed_step[OF step(2) inv(2,1)]
        delivered_step[OF step(2) inv(3,1)] max_workers_step[OF step(2)])
qed

lemma start_sweep_state:
  assumes "start_sweep lib subnet start_ip end_ip cnt timeout out0 results0 = Inr s0"
  shows "accounted probe (to_submit s0) out0 s0" "staffed s0" "delivered results0 s0"
    "max_workers s0 = MAX_WORKERS" "sweep_measure s0 = 4 * length (to_submit s0) + 2"
    "sweep_ip_range lib subnet start_ip end_ip = Inr (to_submit s0)"
  using assms
  by (auto simp: start_sweep_def accounted_def staffed_def delivered_def probe_results_def
      MAX_WORKERS_def sweep_measure_def in_flight_def phase_rank_def split: sum.splits)

lemma complete_results:
  assumes "accounted probe rng out0 s" "delivered results0 s" "phase s = Complete"
  shows "mset (probe_results out0 s) = image_mset probe (mset rng)"
proof -
  from assms(2,3) have y: "yielded s = length (futures s)" by (simp add: delivered_def)
  with accounted_sizes[OF assms(1)] have e: "work_queue s = []" "in_flight s = 0" "finished s = []"
    by simp_all
  then have "running_of (threads s) = []" by (simp add: in_flight_running)
  moreover from assms(1,3) have "rng = futures s" by (simp add: accounted_def)
  ultimately show ?thesis using assms(1) e by (simp add: accounted_def)
qed

text \<open>From every state that satisfies the invariants, the sweep can be run to its end.\<close>

lemma sweep_completes:
  assumes "accounted probe rng out0 s" "staffed s" "delivered results0 s"
  shows "\<exists>s'. reachable probe s s' \<and> phase s' = Complete"
  using assms
proof (induction s rule: measure_induct_rule[where f = sweep_measure])
  case (less s)
  show ?case
  proof (cases "phase s = Complete")
    case True
    then have "reachable probe s s \<and> phase s = Complete" by (simp add: reachable_def)
    then show ?thesis by blast
  next
    case False
    with less.prems have "next_states probe s \<noteq> []" by (intro progress)
    then obtain s1 where step: "sweep_step probe s s1"
      by (cases "next_states probe s") (auto simp: sweep_step_def)
    from sweep_measure_step[OF step] have "sweep_measure s1 < sweep_measure s" by simp
    moreover note accounted_step[OF step less.prems(1)] staffed_step[OF step less.prems(2,1)]
      delivered_step[OF step less.prems(3,1)]
    ultimately obtain s' where "reachable probe s1 s'" "phase s' = Complete"
      using less.IH by blast
    with step have "reachable probe s s' \<and> phase s' = Complete"
      unfolding reachable_def by (simp add: converse_rtranclp_into_rtranclp)
    then show ?thesis by blast
  qed
qed

subsection \<open>The example sweep, run\<close>

lemma run_reachable: "run probe ks s = Some s' \<Longrightarrow> reachable probe s s'"
proof (induction ks arbitrary: s)
  case Nil
  then show ?case by (simp add: reachable_def)
next
  case (Cons k ks)
  then have k: "k < length (next_states probe s)"
    and r: "run probe ks (next_states probe s ! k) = Some s'"
    by (simp_all split: if_splits)
  from k have "sweep_step probe s (next_states probe s ! k)"
    by (simp add: sweep_step_def)
  moreover from Cons.IH[OF r] have "(sweep_step probe)\<^sup>*\<^sup>* (next_states probe s ! k) s'"
    by (simp add: reachable_def)
  ultimately show ?case
    unfolding reachable_def by (rule converse_rtranclp_into_rtranclp)
qed

lemma demo_probe:
  "probe_of demo_os 1 100 (address_class V4 3232235777) = (address_class V4 3232235777, True)"
  "probe_of demo_os 1 100 (address_class V4 3232235778) = (address_class V4 3232235778, False)"
  by (simp_all add: probe_of_def ping_host_def ping_argv_def demo_os_def address_class_def)

lemmas step_defs = next_states_def main_steps_def worker_steps_def submit_def
  adjust_thread_count_def collect_def complete_def MAX_WORKERS_def nth_append

lemma demo_run1:
  "run (probe_of demo_os 1 100) [0, 0, 0, 0, 1] demo_start = Some demo_in_flight"
  by (simp add: demo_start_def demo_in_flight_def step_defs demo_probe)

lemma demo_run2:
  "run (probe_of demo_os 1 100) [1, 0] demo_in_flight = Some demo_partial"
  by (simp add: demo_in_flight_def demo_partial_def step_defs demo_probe)

lemma demo_run3:
  "run (probe_of demo_os 1 100) [0, 0, 0] demo_partial = Some demo_final"
  by (simp add: demo_partial_def demo_final_def step_defs demo_probe)

subsection \<open>The claims about the sweep\<close>

lemma fst_probe_of: "fst (probe_of os cnt timeout a) = a"
  by (simp add: probe_of_def ping_host_def split: sum.splits)

lemma start_sweep_invariants:
  assumes "start_sweep lib subnet start_ip end_ip cnt timeout out0 results0 = Inr s0"
    and "reachable probe s0 s"
  shows "accounted probe (to_submit s0) out0 s" "staffed s" "delivered results0 s"
    "max_workers s = MAX_WORKERS"
  using reachable_invariants[OF assms(2) start_sweep_state(1-3)[OF assms(1)]]
    start_sweep_state(4)[OF assms(1)]
  by simp_all

lemma reachable_measure:
  "reachable probe s0 s \<Longrightarrow> sweep_measure s \<le> sweep_measure s0"
  unfolding reachable_def
proof (induction rule: rtranclp_induct)
  case base
  show ?case by simp
next
  case (step s s')
  from sweep_measure_step[OF step(2)] step(3) show ?case by simp
qed

lemma in_flight_le_threads: "in_flight s \<le> length (threads s)"
  by (simp add: in_flight_def)

text \<open>
  \<^bold>\<open>C1.\<close> In every state a sweep started by \<^verbatim>\<open>start_sweep\<close> can reach, whatever the range
  and the order in which the threads run, the number of probes in flight is at most
  \<^verbatim>\<open>MAX_WORKERS\<close>, which is 50 (the executor never has more threads than that).
\<close>

theorem in_flight_bounded:
  assumes "start_sweep lib subnet start_ip end_ip cnt timeout out0 results0 = Inr s0"
    and "reachable (probe_of os cnt timeout) s0 s"
  shows "in_flight s \<le> MAX_WORKERS \<and> length (threads s) \<le> MAX_WORKERS \<and> MAX_WORKERS = 50"
proof -
  from start_sweep_invariants(2,4)[OF assms] have "length (threads s) \<le> MAX_WORKERS"
    by (simp add: staffed_def)
  with in_flight_le_threads[of s] show ?thesis by (simp add: MAX_WORKERS_def)
qed

text \<open>
  \<^bold>\<open>C2.\<close> A sweep started by \<^verbatim>\<open>start_sweep\<close> ends only in a state where the loop has written
  exactly one probe result per candidate of the range (as multisets: the results are those of
  the candidates, each once). Until then some step is always possible, every step decreases
  the measure by one, the measure starts at \<open>4 * n + 2\<close> for \<open>n\<close> candidates, and a completed
  state can be reached: the sweep cannot stop early, cannot stall and cannot run forever.
\<close>

theorem sweep_probes_every_candidate:
  assumes "start_sweep lib subnet start_ip end_ip cnt timeout out0 results0 = Inr s0"
    and "reachable (probe_of os cnt timeout) s0 s"
  shows "(phase s = Complete \<longrightarrow>
            mset (probe_results out0 s) = image_mset (probe_of os cnt timeout) (mset (to_submit s0)) \<and>
            mset (map fst (probe_results out0 s)) = mset (to_submit s0) \<and>
            next_states (probe_of os cnt timeout) s = []) \<and>
         (phase s \<noteq> Complete \<longrightarrow> next_states (probe_of os cnt timeout) s \<noteq> []) \<and>
         (\<forall>s'. sweep_step (probe_of os cnt timeout) s s' \<longrightarrow> Suc (sweep_measure s') = sweep_measure s) \<and>
         sweep_measure s \<le> 4 * length (to_submit s0) + 2 \<and>
         (\<exists>s'. reachable (probe_of os cnt timeout) s s' \<and> phase s' = Complete)"
proof -
  note inv = start_sweep_invariants[OF assms]
  have 1: "mset (probe_results out0 s) = image_mset (probe_of os cnt timeout) (mset (to_submit s0))"
    if "phase s = Complete"
    using inv(1,3) that by (rule complete_results)
  have 2: "mset (map fst (probe_results out0 s)) = mset (to_submit s0)" if "phase s = Complete"
  proof -
    have "mset (map fst (probe_results out0 s)) = image_mset fst (mset (probe_results out0 s))"
      by simp
    also have "\<dots> = image_mset fst (image_mset (probe_of os cnt timeout) (mset (to_submit s0)))"
      by (simp only: 1[OF that])
    also have "\<dots> = mset (to_submit s0)"
      by (simp add: image_mset.compositionality comp_def fst_probe_of)
    finally show ?thesis .
  qed
  have 3: "next_states (probe_of os cnt timeout) s = []" if "phase s = Complete"
    using that inv(3) by (intro complete_terminal) (simp_all add: delivered_def)
  have 4: "next_states (probe_of os cnt timeout) s \<noteq> []" if "phase s \<noteq> Complete"
    using inv(1,2) that by (rule progress)
  have 5: "sweep_measure s \<le> 4 * length (to_submit s0) + 2"
    using reachable_measure[OF assms(2)] start_sweep_state(5)[OF assms(1)] by simp
  have 6: "\<exists>s'. reachable (probe_of os cnt timeout) s s' \<and> phase s' = Complete"
    using inv(1,2,3) by (rule sweep_completes)
  from 1 2 3 4 5 6 show ?thesis by (simp add: sweep_measure_step)
qed

text \<open>
  \<^bold>\<open>C3.\<close> When \<^verbatim>\<open>subprocess.run\<close> raises for a candidate instead of returning,
  \<^verbatim>\<open>ping_host\<close> returns that candidate with the verdict down; a sweep that has the candidate
  in its range goes on (a next step exists until it has completed) and ends with the
  candidate written as not responding, never as up, and absent from the result list.
\<close>

theorem invocation_failure_is_down:
  assumes "subprocess_run os (ping_argv os a cnt timeout) = Inl exc"
    and "start_sweep lib subnet start_ip end_ip cnt timeout out0 results0 = Inr s0"
    and "reachable (probe_of os cnt timeout) s0 s"
    and "a \<in> set (to_submit s0)"
  shows "ping_host os a cnt timeout = (a, False) \<and>
         (phase s \<noteq> Complete \<longrightarrow> next_states (probe_of os cnt timeout) s \<noteq> []) \<and>
         (phase s = Complete \<longrightarrow>
            (a, False) \<in> set (probe_results out0 s) \<and> (a, True) \<notin> set (probe_results out0 s) \<and>
            a \<notin> set (result_list s))"
proof -
  note inv = start_sweep_invariants[OF assms(2,3)]
  have down: "ping_host os a cnt timeout = (a, False)"
    using assms(1) by (simp add: ping_host_def)
  have live: "next_states (probe_of os cnt timeout) s \<noteq> []" if "phase s \<noteq> Complete"
    using inv(1,2) that by (rule progress)
  have fin: "(a, False) \<in> set (probe_results out0 s) \<and> (a, True) \<notin> set (probe_results out0 s) \<and>
            a \<notin> set (result_list s)" if c: "phase s = Complete"
  proof -
    have res: "set (probe_results out0 s) = probe_of os cnt timeout ` set (to_submit s0)"
      using complete_results[OF inv(1,3) c] by (metis set_image_mset set_mset_mset)
    have up: "(a, True) \<notin> set (probe_results out0 s)"
    proof
      assume "(a, True) \<in> set (probe_results out0 s)"
      then obtain b where "probe_of os cnt timeout b = (a, True)" using res by auto
      moreover from this have "b = a" using fst_probe_of[of os cnt timeout b] by simp
      ultimately show False using down by (simp add: probe_of_def)
    qed
    have "(a, False) \<in> set (probe_results out0 s)"
      using res assms(4) down by (force simp: probe_of_def)
    moreover have "a \<notin> set (result_list s)"
    proof
      assume "a \<in> set (result_list s)"
      with inv(1,3) c have "a \<in> fst ` set (filter snd (probe_results out0 s))"
        by (simp add: delivered_def accounted_def)
      then have "(a, True) \<in> set (probe_results out0 s)" by auto
      with up show False by simp
    qed
    ultimately show ?thesis using up by simp
  qed
  from down live fin show ?thesis by simp
qed

text \<open>
  \<^bold>\<open>C9\<close> (as amended). A sweep in progress has no cancellation: a next step always exists,
  every step keeps all the candidates (submitted or still to submit), and the caller's result
  list is untouched until the sweep has completed; the completed sweep has one result per
  candidate and hands over the responsive hosts among them. No report is partial.
\<close>

theorem sweep_runs_to_completion:
  assumes "start_sweep lib subnet start_ip end_ip cnt timeout out0 results0 = Inr s0"
    and "reachable (probe_of os cnt timeout) s0 s"
  shows "(phase s \<noteq> Complete \<longrightarrow>
            result_list s = results0 \<and> next_states (probe_of os cnt timeout) s \<noteq> [] \<and>
            (\<forall>s'. sweep_step (probe_of os cnt timeout) s s' \<longrightarrow>
               futures s' @ to_submit s' = to_submit s0)) \<and>
         (phase s = Complete \<longrightarrow>
            length (probe_results out0 s) = length (to_submit s0) \<and>
            result_list s = map fst (filter snd (probe_results out0 s)))"
proof -
  note inv = start_sweep_invariants[OF assms]
  have a: "result_list s = results0" if "phase s \<noteq> Complete"
    using inv(3) that by (simp add: delivered_def)
  have b: "next_states (probe_of os cnt timeout) s \<noteq> []" if "phase s \<noteq> Complete"
    using inv(1,2) that by (rule progress)
  have c: "futures s' @ to_submit s' = to_submit s0" if "sweep_step (probe_of os cnt timeout) s s'" for s'
    using accounted_step[OF that inv(1)] by (simp add: accounted_def)
  have d: "length (probe_results out0 s) = length (to_submit s0)" if "phase s = Complete"
    using complete_results[OF inv(1,3) that] by (metis size_mset size_image_mset)
  have e: "result_list s = map fst (filter snd (probe_results out0 s))" if "phase s = Complete"
    using inv(1,3) that by (simp add: delivered_def accounted_def)
  from a b c d e show ?thesis by simp
qed

subsection \<open>The claims on the example sweep\<close>

lemma demo_start_sweep:
  "start_sweep demo_lib ''192.168.1.0/30'' [] [] 1 100 [] [] = Inr demo_start"
  by (simp add: start_sweep_def demo_range30 demo_start_def demo_header_def)

lemma demo_reach_in_flight: "reachable (probe_of demo_os 1 100) demo_start demo_in_flight"
  using demo_run1 by (rule run_reachable)

lemma reachable_trans:
  "reachable probe s0 s1 \<Longrightarrow> reachable probe s1 s2 \<Longrightarrow> reachable probe s0 s2"
  by (simp add: reachable_def)

lemma demo_reach_partial: "reachable (probe_of demo_os 1 100) demo_start demo_partial"
  using demo_reach_in_flight run_reachable[OF demo_run2] by (rule reachable_trans)

lemma demo_reach_final: "reachable (probe_of demo_os 1 100) demo_start demo_final"
  using demo_reach_partial run_reachable[OF demo_run3] by (rule reachable_trans)

text \<open>The example sweep with both probes in flight.\<close>

theorem in_flight_bounded_witness:
  "start_sweep demo_lib ''192.168.1.0/30'' [] [] 1 100 [] [] = Inr demo_start \<and>
   reachable (probe_of demo_os 1 100) demo_start demo_in_flight \<and>
   in_flight demo_in_flight = 2 \<and> in_flight demo_in_flight \<le> MAX_WORKERS"
  using in_flight_bounded[OF demo_start_sweep demo_reach_in_flight]
  by (simp add: demo_start_sweep demo_reach_in_flight) (simp add: in_flight_def demo_in_flight_def)

text \<open>The example sweep at its end, with one result per host in the order of arrival, and
  on the way there, where it can only go on.\<close>

theorem sweep_probes_every_candidate_witness:
  "start_sweep demo_lib ''192.168.1.0/30'' [] [] 1 100 [] [] = Inr demo_start \<and>
   reachable (probe_of demo_os 1 100) demo_start demo_final \<and>
   phase demo_final = Complete \<and>
   mset (map fst (probe_results [] demo_final)) = mset (to_submit demo_start) \<and>
   next_states (probe_of demo_os 1 100) demo_final = [] \<and>
   probe_results [] demo_final =
     [(address_class V4 3232235778, False), (address_class V4 3232235777, True)] \<and>
   reachable (probe_of demo_os 1 100) demo_start demo_partial \<and>
   phase demo_partial = Collecting \<and>
   next_states (probe_of demo_os 1 100) demo_partial \<noteq> []"
proof -
  have c: "phase demo_final = Complete" and p: "phase demo_partial \<noteq> Complete"
    "phase demo_partial = Collecting"
    by (simp_all add: demo_final_def demo_partial_def)
  have r: "probe_results [] demo_final =
     [(address_class V4 3232235778, False), (address_class V4 3232235777, True)]"
    by (simp add: probe_results_def demo_final_def demo_header_def)
  from sweep_probes_every_candidate[OF demo_start_sweep demo_reach_final] c
    sweep_probes_every_candidate[OF demo_start_sweep demo_reach_partial] p
  show ?thesis
    by (simp add: demo_start_sweep demo_reach_final demo_reach_partial r)
qed

lemma demo_broken_run:
  "run (probe_of broken_os 1 100) [0, 0, 0, 0, 1, 1, 0, 0, 0, 0] demo_start = Some broken_final"
  by (simp add: demo_start_def broken_final_def step_defs probe_of_def ping_host_def ping_argv_def
      broken_os_def)

text \<open>The example sweep where no ping can be started: it completes, with every host down.\<close>

theorem invocation_failure_is_down_witness:
  "subprocess_run broken_os (ping_argv broken_os (address_class V4 3232235778) 1 100) =
     Inl ''FileNotFoundError'' \<and>
   start_sweep demo_lib ''192.168.1.0/30'' [] [] 1 100 [] [] = Inr demo_start \<and>
   reachable (probe_of broken_os 1 100) demo_start broken_final \<and>
   address_class V4 3232235778 \<in> set (to_submit demo_start) \<and>
   ping_host broken_os (address_class V4 3232235778) 1 100 = (address_class V4 3232235778, False) \<and>
   phase broken_final = Complete \<and>
   (address_class V4 3232235778, False) \<in> set (probe_results [] broken_final) \<and>
   (address_class V4 3232235778, True) \<notin> set (probe_results [] broken_final) \<and>
   address_class V4 3232235778 \<notin> set (result_list broken_final)"
proof -
  have raised: "subprocess_run broken_os (ping_argv broken_os (address_class V4 3232235778) 1 100) =
     Inl ''FileNotFoundError''"
    by (simp add: broken_os_def)
  have reach: "reachable (probe_of broken_os 1 100) demo_start broken_final"
    using demo_broken_run by (rule run_reachable)
  have cand: "address_class V4 3232235778 \<in> set (to_submit demo_start)"
    by (simp add: demo_start_def)
  have c: "phase broken_final = Complete" by (simp add: broken_final_def)
  from invocation_failure_is_down[OF raised demo_start_sweep reach cand] c
  show ?thesis by (simp add: raised demo_start_sweep reach cand)
qed

lemma demo_partial_next:
  "map phase (next_states (probe_of demo_os 1 100) demo_partial) = [Collecting]"
  by (simp add: demo_partial_def step_defs demo_probe)

lemma demo_partial_results:
  "probe_results [] demo_partial = [(address_class V4 3232235778, False)]"
  by (simp add: probe_results_def demo_partial_def demo_header_def)

text \<open>The example sweep with one of two results written, and at its end.\<close>

theorem sweep_runs_to_completion_witness:
  "start_sweep demo_lib ''192.168.1.0/30'' [] [] 1 100 [] [] = Inr demo_start \<and>
   reachable (probe_of demo_os 1 100) demo_start demo_partial \<and>
   phase demo_partial = Collecting \<and>
   probe_results [] demo_partial = [(address_class V4 3232235778, False)] \<and>
   result_list demo_partial = [] \<and>
   next_states (probe_of demo_os 1 100) demo_partial \<noteq> [] \<and>
   reachable (probe_of demo_os 1 100) demo_start demo_final \<and>
   phase demo_final = Complete \<and>
   length (probe_results [] demo_final) = length (to_submit demo_start) \<and>
   result_list demo_final = map fst (filter snd (probe_results [] demo_final))"
proof -
  have p: "phase demo_partial \<noteq> Complete" "phase demo_partial = Collecting"
    and c: "phase demo_final = Complete"
    by (simp_all add: demo_final_def demo_partial_def)
  from sweep_runs_to_completion[OF demo_start_sweep demo_reach_partial] p
    sweep_runs_to_completion[OF demo_start_sweep demo_reach_final] c
  show ?thesis
    by (simp add: demo_start_sweep demo_reach_partial demo_reach_final demo_partial_results)
qed

lemma demo_complete_length:
  assumes "reachable (probe_of demo_os 1 100) demo_start s" "phase s = Complete"
  shows "length (probe_results [] s) = 2"
proof -
  note inv = start_sweep_invariants[OF demo_start_sweep assms(1)]
  from complete_results[OF inv(1,3) assms(2)]
  have "size (mset (probe_results [] s)) =
        size (image_mset (probe_of demo_os 1 100) (mset (to_submit demo_start)))"
    by simp
  then show ?thesis by (simp add: demo_start_def)
qed

text \<open>
  \<^bold>\<open>C9\<close> as stated fails: the example sweep reaches a state with one of its two results
  written; from there its one next state is again in the collecting loop, and no state it can
  reach is a completed sweep with fewer than two results. \<^verbatim>\<open>start_sweep\<close> takes no
  cancellation input and its report carries no mark of completeness.
\<close>

theorem cancellation_counterexample:
  "start_sweep demo_lib ''192.168.1.0/30'' [] [] 1 100 [] [] = Inr demo_start \<and>
   reachable (probe_of demo_os 1 100) demo_start demo_partial \<and>
   probe_results [] demo_partial = [(address_class V4 3232235778, False)] \<and>
   map phase (next_states (probe_of demo_os 1 100) demo_partial) = [Collecting] \<and>
   \<not> (\<exists>s. reachable (probe_of demo_os 1 100) demo_start s \<and> phase s = Complete \<and>
          length (probe_results [] s) < 2)"
  using demo_complete_length
  by (auto simp: demo_start_sweep demo_reach_partial demo_partial_results demo_partial_next)

subsection \<open>A single bound\<close>

lemma complete_candidates:
  assumes "start_sweep lib subnet start_ip end_ip cnt timeout out0 results0 = Inr s0"
    and "reachable (probe_of os cnt timeout) s0 s" "phase s = Complete"
  shows "mset (map fst (probe_results out0 s)) = mset (to_submit s0)"
proof -
  note inv = start_sweep_invariants[OF assms(1,2)]
  have "mset (map fst (probe_results out0 s)) = image_mset fst (mset (probe_results out0 s))"
    by simp
  also have "\<dots> = image_mset fst (image_mset (probe_of os cnt timeout) (mset (to_submit s0)))"
    by (simp only: complete_results[OF inv(1,3) assms(3)])
  also have "\<dots> = mset (to_submit s0)"
    by (simp add: image_mset.compositionality comp_def fst_probe_of)
  finally show ?thesis .
qed

text \<open>
  \<^bold>\<open>C10.\<close> When exactly one of the two bound fields is filled in and the other is empty (the
  field texts reach \<^verbatim>\<open>start_sweep\<close> stripped of surrounding white space by
  \<^verbatim>\<open>threaded_sweep\<close>), the filled one is ignored, it is not even parsed: \<^verbatim>\<open>start_sweep\<close> does
  what it does with both fields empty. A malformed network text gives the library's error;
  otherwise the sweep starts on \<^verbatim>\<open>hosts()\<close> of the network, all of it, announces the range as the
  full subnet, and when it has completed it has probed exactly those hosts.
\<close>

theorem single_bound_ignored:
  assumes "(start_ip = []) \<noteq> (end_ip = [])"
  shows "start_sweep lib subnet start_ip end_ip cnt timeout out0 results0 =
           start_sweep lib subnet [] [] cnt timeout out0 results0 \<and>
         (\<forall>msg. ip_network lib subnet = Inl msg \<longrightarrow>
            start_sweep lib subnet start_ip end_ip cnt timeout out0 results0 =
              Inl (showerror ''Invalid Input'' msg)) \<and>
         (\<forall>net. ip_network lib subnet = Inr net \<longrightarrow>
            (\<exists>s0. start_sweep lib subnet start_ip end_ip cnt timeout out0 results0 = Inr s0 \<and>
                  phase s0 = Submitting \<and> to_submit s0 = hosts net \<and>
                  output_text s0 =
                    out0 @ [Pinging_subnet subnet, Ping_count cnt timeout, Range_full_subnet,
                            Starting_sweep] \<and>
                  (\<forall>os s. reachable (probe_of os cnt timeout) s0 s \<and> phase s = Complete \<longrightarrow>
                     mset (map fst (probe_results out0 s)) = mset (hosts net))))"
proof -
  from assms have nb: "\<not> (start_ip \<noteq> [] \<and> end_ip \<noteq> [])" by auto
  have 1: "start_sweep lib subnet start_ip end_ip cnt timeout out0 results0 =
           start_sweep lib subnet [] [] cnt timeout out0 results0"
    using nb by (auto simp: start_sweep_def sweep_ip_range_def)
  have 2: "start_sweep lib subnet start_ip end_ip cnt timeout out0 results0 =
              Inl (showerror ''Invalid Input'' msg)" if "ip_network lib subnet = Inl msg" for msg
    using nb that by (auto simp: start_sweep_def sweep_ip_range_def)
  have 3: "\<exists>s0. start_sweep lib subnet start_ip end_ip cnt timeout out0 results0 = Inr s0 \<and>
                  phase s0 = Submitting \<and> to_submit s0 = hosts net \<and>
                  output_text s0 =
                    out0 @ [Pinging_subnet subnet, Ping_count cnt timeout, Range_full_subnet,
                            Starting_sweep] \<and>
                  (\<forall>os s. reachable (probe_of os cnt timeout) s0 s \<and> phase s = Complete \<longrightarrow>
                     mset (map fst (probe_results out0 s)) = mset (hosts net))"
    if net: "ip_network lib subnet = Inr net" for net
  proof -
    from nb net obtain s0 where
      s0: "start_sweep lib subnet start_ip end_ip cnt timeout out0 results0 = Inr s0"
      and f: "phase s0 = Submitting" "to_submit s0 = hosts net"
        "output_text s0 =
           out0 @ [Pinging_subnet subnet, Ping_count cnt timeout, Range_full_subnet, Starting_sweep]"
      by (auto simp: start_sweep_def sweep_ip_range_def)
    have "mset (map fst (probe_results out0 s)) = mset (hosts net)"
      if "reachable (probe_of os cnt timeout) s0 s" "phase s = Complete" for os s
      using complete_candidates[OF s0 that] f(2) by simp
    with s0 f show ?thesis by blast
  qed
  from 1 2 3 show ?thesis by blast
qed

text \<open>A start bound that is no address at all, with an empty end bound: the example sweep of
  both hosts of 192.168.1.0/30.\<close>

theorem single_bound_ignored_witness:
  "((''abc'' = []) \<noteq> (([]::string) = [])) \<and>
   ip_network demo_lib ''192.168.1.0/30'' = Inr (make_network (address_class V4 3232235776) 30) \<and>
   hosts (make_network (address_class V4 3232235776) 30) =
     [address_class V4 3232235777, address_class V4 3232235778] \<and>
   start_sweep demo_lib ''192.168.1.0/30'' ''abc'' [] 1 100 [] [] = Inr demo_start \<and>
   start_sweep demo_lib ''192.168.1.0/30'' [] [] 1 100 [] [] = Inr demo_start \<and>
   to_submit demo_start = [address_class V4 3232235777, address_class V4 3232235778] \<and>
   output_text demo_start =
     [Pinging_subnet ''192.168.1.0/30'', Ping_count 1 100, Range_full_subnet, Starting_sweep] \<and>
   reachable (probe_of demo_os 1 100) demo_start demo_final \<and> phase demo_final = Complete \<and>
   mset (map fst (probe_results [] demo_final)) =
     mset [address_class V4 3232235777, address_class V4 3232235778]"
proof -
  have one: "(''abc'' = []) \<noteq> (([]::string) = [])" by simp
  have c: "phase demo_final = Complete" by (simp add: demo_final_def)
  note inst = single_bound_ignored[OF one, of demo_lib "''192.168.1.0/30''" 1 100 "[]" "[]"]
  from inst demo_net30 obtain s0 where
    s0: "start_sweep demo_lib ''192.168.1.0/30'' ''abc'' [] 1 100 [] [] = Inr s0"
    and t: "to_submit s0 = hosts (make_network (address_class V4 3232235776) 30)"
    and o: "output_text s0 =
        [] @ [Pinging_subnet ''192.168.1.0/30'', Ping_count 1 100, Range_full_subnet, Starting_sweep]"
    and all: "\<forall>os s. reachable (probe_of os 1 100) s0 s \<and> phase s = Complete \<longrightarrow>
        mset (map fst (probe_results [] s)) = mset (hosts (make_network (address_class V4 3232235776) 30))"
    by blast
  from inst s0 have eq: "s0 = demo_start" by (simp add: demo_start_sweep)
  from all demo_reach_final c have
    "mset (map fst (probe_results [] demo_final)) =
     mset (hosts (make_network (address_class V4 3232235776) 30))"
    unfolding eq by blast
  with s0 t o show ?thesis
    unfolding eq by (simp add: demo_net30 demo_hosts30 demo_start_sweep demo_reach_final c)
qed

end
